theory Spec2Isabelle
  imports Main "HOL-Library.Multiset" "HOL-Library.AList_Mapping"
begin

section \<open>The ConvertKit client (package convertkit)\<close>

text \<open>
  A shallow embedding of \<^verbatim>\<open>convertkit.go\<close>. Go's \<^verbatim>\<open>int\<close> is modelled by \<open>int\<close>: the
  integers of the program are read from JSON or from the configuration and compared; the
  only arithmetic is on the page counter \<open>i\<close>, which stays between 2 and the length of an
  allocated slice, so nothing can wrap. A slice is a list (\<^verbatim>\<open>nil\<close> is \<open>[]\<close>), a Go map a
  mapping (\<^verbatim>\<open>nil\<close> is the empty mapping), \<^verbatim>\<open>time.Time\<close> an integer instant whose
  zero value is 0.

  Names are those of the source. A method \<^verbatim>\<open>m\<close> of \<^verbatim>\<open>Client\<close> is \<open>Client_m\<close>. Where two
  structs have a field of the same name, the fields of the later struct carry a prefix:
  \<open>SubID\<close>, \<open>SubState\<close>, \<open>SubCreatedAt\<close> and \<open>SubSubscriber\<close> are the fields \<^verbatim>\<open>ID\<close>,
  \<^verbatim>\<open>State\<close>, \<^verbatim>\<open>CreatedAt\<close> and \<^verbatim>\<open>Subscriber\<close> of \<^verbatim>\<open>Subscription\<close>; \<open>ReqFirstName\<close> and
  \<open>ReqFields\<close> are \<^verbatim>\<open>FirstName\<close> and \<^verbatim>\<open>Fields\<close> of \<^verbatim>\<open>SubscriptionRequest\<close>;
  \<open>QueryEmailAddress\<close> is \<^verbatim>\<open>EmailAddress\<close> of \<^verbatim>\<open>SubscriberQuery\<close>.
\<close>

subsection \<open>Errors, panics and results\<close>

text \<open>
  The two package-level error values, the errors the package builds itself with
  \<^verbatim>\<open>errors.New\<close> and \<^verbatim>\<open>fmt.Errorf\<close> (carrying their message), and the errors handed up
  from the standard library (\<^verbatim>\<open>net/http\<close>, \<^verbatim>\<open>encoding/json\<close>, \<^verbatim>\<open>time\<close>).
\<close>

datatype error =
    ErrKeyMissing
  | ErrSecretMissing
  | ErrorsNew string
  | Errorf string
  | External string

datatype panic = NilPointerDereference | MakechanSizeOutOfRange

text \<open>A call either returns its Go result tuple or panics.\<close>

datatype 'a outcome = Returns 'a | Panics panic

subsection \<open>Data model\<close>

type_synonym time = int

record Subscriber =
  ID :: int
  FirstName :: string
  EmailAddress :: string
  State :: string
  CreatedAt :: time
  Fields :: "(string, string) mapping"

definition Subscriber_zero :: Subscriber where
  "Subscriber_zero =
     \<lparr>ID = 0, FirstName = '''', EmailAddress = '''', State = '''', CreatedAt = 0,
      Fields = Mapping.empty\<rparr>"

record subscriberPage =
  TotalSubscribers :: int
  Page :: int
  TotalPages :: int
  Subscribers :: "Subscriber list"

definition subscriberPage_zero :: subscriberPage where
  "subscriberPage_zero = \<lparr>TotalSubscribers = 0, Page = 0, TotalPages = 0, Subscribers = []\<rparr>"

record Subscription =
  SubID :: int
  SubState :: string
  SubCreatedAt :: time
  Source :: string
  Referrer :: string
  SubscribableID :: int
  SubscribableType :: string
  SubSubscriber :: Subscriber

definition Subscription_zero :: Subscription where
  "Subscription_zero =
     \<lparr>SubID = 0, SubState = '''', SubCreatedAt = 0, Source = '''', Referrer = '''',
      SubscribableID = 0, SubscribableType = '''', SubSubscriber = Subscriber_zero\<rparr>"

record SubscriptionRequest =
  Email :: string
  ReqFirstName :: string
  ReqFields :: "(string, string) mapping"
  Tags :: "int list"
  APIKey :: string

definition SubscriptionRequest_zero :: SubscriptionRequest where
  "SubscriptionRequest_zero =
     \<lparr>Email = '''', ReqFirstName = '''', ReqFields = Mapping.empty, Tags = [], APIKey = ''''\<rparr>"

record SubscriberQuery =
  Since :: string
  Until :: string
  Reverse :: bool
  Cancelled :: bool
  QueryEmailAddress :: string

subsection \<open>HTTP and the world outside the process\<close>

text \<open>
  A request as \<^verbatim>\<open>http.NewRequest\<close> builds it and a response as the client reads it. The
  remote service and the clock are a state \<open>'w\<close> that every exchange may change: an HTTP
  client is a function from that state and a request to a transport error or a response,
  and the next state.
\<close>

record http_request =
  Method :: string
  URL :: string
  ContentType :: "string option"
  ReqBody :: "string option"

record http_response =
  StatusCode :: int
  Status :: string
  Body :: string

type_synonym 'w http_client = "'w \<Rightarrow> http_request \<Rightarrow> (error + http_response) \<times> 'w"

record 'w Config =
  Endpoint :: string
  Key :: string
  Secret :: string
  ConcurrentRequests :: int
  HTTPClient :: "'w http_client option"

record 'w Client =
  config :: "'w Config"

text \<open>
  The functions of Go's standard library that the package calls, taken as parameters:
  \<^item> \<open>os_Getenv\<close>: \<^verbatim>\<open>os.Getenv\<close>, the empty string for an unset variable;
  \<^item> \<open>http_DefaultClient\<close>: \<^verbatim>\<open>http.DefaultClient\<close>;
  \<^item> \<open>strings_ToLower\<close>: \<^verbatim>\<open>strings.ToLower\<close>;
  \<^item> \<open>time_Yesterday\<close>: \<^verbatim>\<open>time.Now().Add(-24 * time.Hour).Format("2006-01-02")\<close>, read
    from the world;
  \<^item> \<open>time_Parse\<close>: the error of \<^verbatim>\<open>time.Parse("2006-01-02", date)\<close>, if any;
  \<^item> \<open>http_NewRequest\<close>: the error of \<^verbatim>\<open>http.NewRequest(method, url, body)\<close>, if any;
  \<^item> \<open>json_Marshal\<close>: \<^verbatim>\<open>json.Marshal\<close> of a subscription request;
  \<^item> \<open>decode_page\<close>, \<open>decode_subscription\<close>: \<^verbatim>\<open>json.NewDecoder(body).Decode(out)\<close> at
    the two types the package decodes into; the decoder takes the value \<open>out\<close> points to
    and returns what it holds afterwards (possibly partly filled) with the error, if any.
\<close>

record 'w stdlib =
  os_Getenv :: "string \<Rightarrow> string"
  http_DefaultClient :: "'w http_client"
  strings_ToLower :: "string \<Rightarrow> string"
  time_Yesterday :: "'w \<Rightarrow> string"
  time_Parse :: "string \<Rightarrow> error option"
  http_NewRequest :: "string \<Rightarrow> string \<Rightarrow> error option"
  json_Marshal :: "SubscriptionRequest \<Rightarrow> error + string"
  decode_page :: "string \<Rightarrow> subscriberPage \<Rightarrow> subscriberPage \<times> error option"
  decode_subscription :: "string \<Rightarrow> Subscription \<Rightarrow> Subscription \<times> error option"

text \<open>
  The state threaded through every call: the world, the requests handed to
  \<^verbatim>\<open>HTTPClient.Do\<close> so far (oldest first), and the page fetches that have returned so far,
  each with its page number and its result, in the order they returned.
\<close>

record 'w sys =
  world :: 'w
  sent :: "http_request list"
  calls :: "(int \<times> (error + subscriberPage)) list"

subsection \<open>Formatting\<close>

text \<open>The verb \<^verbatim>\<open>%d\<close> of \<^verbatim>\<open>fmt.Sprintf\<close>: decimal digits, with a minus sign below zero.\<close>

function show_nat :: "nat \<Rightarrow> string" where
  "show_nat n =
     (if n < 10 then [''0123456789'' ! n]
      else show_nat (n div 10) @ [''0123456789'' ! (n mod 10)])"
  by pat_completeness auto
termination
  by (relation "measure id") auto

declare show_nat.simps [simp del]

definition show_int :: "int \<Rightarrow> string" where
  "show_int i = (if i < 0 then ''-'' @ show_nat (nat (- i)) else show_nat (nat i))"

subsection \<open>Configuration\<close>

definition DefaultConfig :: "'w stdlib \<Rightarrow> 'w Config" where
  "DefaultConfig lib =
     (let c = \<lparr>Endpoint = ''https://api.convertkit.com'', Key = '''', Secret = '''',
                ConcurrentRequests = 8, HTTPClient = Some (http_DefaultClient lib)\<rparr>;
          c = (let v = os_Getenv lib ''CONVERTKIT_API_ENDPOINT''
               in if v \<noteq> '''' then c\<lparr>Endpoint := v\<rparr> else c);
          c = (let v = os_Getenv lib ''CONVERTKIT_API_KEY''
               in if v \<noteq> '''' then c\<lparr>Key := v\<rparr> else c);
          c = (let v = os_Getenv lib ''CONVERTKIT_API_SECRET''
               in if v \<noteq> '''' then c\<lparr>Secret := v\<rparr> else c)
      in c)"

definition NewClient :: "'w stdlib \<Rightarrow> 'w Config \<Rightarrow> 'w Client \<times> error option" where
  "NewClient lib c0 =
     (let defConfig = DefaultConfig lib;
          c = (if Endpoint c0 = '''' then c0\<lparr>Endpoint := Endpoint defConfig\<rparr> else c0);
          c = (if Key c = '''' then c\<lparr>Key := Key defConfig\<rparr> else c);
          c = (if Secret c = '''' then c\<lparr>Secret := Secret defConfig\<rparr> else c);
          c = (if ConcurrentRequests c = 0
               then c\<lparr>ConcurrentRequests := ConcurrentRequests defConfig\<rparr> else c);
          c = (if HTTPClient c = None then c\<lparr>HTTPClient := HTTPClient defConfig\<rparr> else c)
      in (\<lparr>config = c\<rparr>, None))"

subsection \<open>Tags of a subscription request\<close>

text \<open>
  The loop of \<^verbatim>\<open>AddTag\<close> over \<^verbatim>\<open>r.Tags\<close>: \<open>True\<close> when it returns early on finding
  \<open>newTag\<close>, \<open>False\<close> when it runs to the end.
\<close>

fun AddTag_found :: "int list \<Rightarrow> int \<Rightarrow> bool" where
  "AddTag_found [] newTag = False"
| "AddTag_found (tag # tags) newTag = (if tag = newTag then True else AddTag_found tags newTag)"

definition AddTag :: "SubscriptionRequest \<Rightarrow> int \<Rightarrow> SubscriptionRequest" where
  "AddTag r newTag =
     (if AddTag_found (Tags r) newTag then r else r\<lparr>Tags := Tags r @ [newTag]\<rparr>)"


subsection \<open>Requests\<close>

definition parseDate :: "'w stdlib \<Rightarrow> string \<Rightarrow> 'w \<Rightarrow> error + string" where
  "parseDate lib date w =
     (if strings_ToLower lib date = ''yesterday'' then Inr (time_Yesterday lib w)
      else case time_Parse lib date of
             Some err \<Rightarrow> Inl err
           | None \<Rightarrow> Inr date)"

text \<open>
  \<^verbatim>\<open>sendRequest\<close> and \<^verbatim>\<open>postJSON\<close> return an error and fill \<^verbatim>\<open>out\<close>; here they
  return what \<^verbatim>\<open>out\<close> holds afterwards together with the error. \<open>dec\<close> is the JSON decoder
  at the type of \<^verbatim>\<open>out\<close>. Calling \<^verbatim>\<open>Do\<close> on a nil \<^verbatim>\<open>*http.Client\<close> panics. The only
  value \<^verbatim>\<open>postJSON\<close> is given to marshal is a \<^verbatim>\<open>SubscriptionRequest\<close>.
\<close>

definition Client_sendRequest ::
  "'w stdlib \<Rightarrow> 'w Client \<Rightarrow> string \<Rightarrow> string \<Rightarrow> string option \<Rightarrow>
   (string \<Rightarrow> 'a \<Rightarrow> 'a \<times> error option) \<Rightarrow> 'a \<Rightarrow> 'w sys \<Rightarrow> ('a \<times> error option) outcome \<times> 'w sys" where
  "Client_sendRequest lib c method url body dec out s =
     (case http_NewRequest lib method url of
        Some err \<Rightarrow> (Returns (out, Some err), s)
      | None \<Rightarrow>
          (let req = \<lparr>Method = method, URL = url, ContentType = None, ReqBody = body\<rparr> in
           case HTTPClient (config c) of
             None \<Rightarrow> (Panics NilPointerDereference, s)
           | Some client \<Rightarrow>
               (case client (world s) req of
                  (r, w') \<Rightarrow>
                    (let s' = s\<lparr>world := w', sent := sent s @ [req]\<rparr> in
                     case r of
                       Inl err \<Rightarrow> (Returns (out, Some err), s')
                     | Inr resp \<Rightarrow>
                         if StatusCode resp \<noteq> 200
                         then (Returns (out, Some (Errorf (''HTTP error: '' @ Status resp))), s')
                         else (Returns (dec (Body resp) out), s')))))"

definition Client_postJSON ::
  "'w stdlib \<Rightarrow> 'w Client \<Rightarrow> string \<Rightarrow> SubscriptionRequest \<Rightarrow>
   (string \<Rightarrow> 'a \<Rightarrow> 'a \<times> error option) \<Rightarrow> 'a \<Rightarrow> 'w sys \<Rightarrow> ('a \<times> error option) outcome \<times> 'w sys" where
  "Client_postJSON lib c path reqStruct dec out s =
     (case json_Marshal lib reqStruct of
        Inl err \<Rightarrow> (Returns (out, Some err), s)
      | Inr body \<Rightarrow>
          (case http_NewRequest lib ''POST'' (Endpoint (config c) @ path) of
             Some err \<Rightarrow> (Returns (out, Some err), s)
           | None \<Rightarrow>
               (let req = \<lparr>Method = ''POST'', URL = Endpoint (config c) @ path,
                           ContentType = Some ''application/json'', ReqBody = Some body\<rparr> in
                case HTTPClient (config c) of
                  None \<Rightarrow> (Panics NilPointerDereference, s)
                | Some client \<Rightarrow>
                    (case client (world s) req of
                       (r, w') \<Rightarrow>
                         (let s' = s\<lparr>world := w', sent := sent s @ [req]\<rparr> in
                          case r of
                            Inl err \<Rightarrow> (Returns (out, Some err), s')
                          | Inr resp \<Rightarrow>
                              if StatusCode resp \<noteq> 200
                              then (Returns (out, Some (Errorf (''HTTP error: '' @ Status resp))), s')
                              else (Returns (dec (Body resp) out), s'))))))"

subsection \<open>Fetching one page of subscribers\<close>

text \<open>
  The block \<^verbatim>\<open>if query != nil { ... }\<close> of \<^verbatim>\<open>subscriberPage\<close>: the URL with the
  parameters of the query appended, or the error of the first date that does not parse.
\<close>

definition subscriberPage_query ::
  "'w stdlib \<Rightarrow> SubscriberQuery option \<Rightarrow> 'w \<Rightarrow> string \<Rightarrow> error + string" where
  "subscriberPage_query lib query w url =
     (case query of
        None \<Rightarrow> Inr url
      | Some q \<Rightarrow>
          (case (if Since q \<noteq> ''''
                 then (case parseDate lib (Since q) w of
                         Inl err \<Rightarrow> Inl err
                       | Inr since \<Rightarrow> Inr (url @ ''&from='' @ since))
                 else Inr url) of
             Inl err \<Rightarrow> Inl err
           | Inr url \<Rightarrow>
               (case (if Until q \<noteq> ''''
                      then (case parseDate lib (Until q) w of
                              Inl err \<Rightarrow> Inl err
                            | Inr until \<Rightarrow> Inr (url @ ''&to='' @ until))
                      else Inr url) of
                  Inl err \<Rightarrow> Inl err
                | Inr url \<Rightarrow>
                    (let url = (if Reverse q then url @ ''&sort_order=desc'' else url);
                         url = (if Cancelled q then url @ ''&sort_field=cancelled_at'' else url);
                         url = (if QueryEmailAddress q \<noteq> ''''
                                then url @ ''&email_address='' @ QueryEmailAddress q else url)
                     in Inr url))))"

text \<open>
  \<^verbatim>\<open>subscriberPage\<close> returns \<^verbatim>\<open>(nil, err)\<close> or \<^verbatim>\<open>(&p, nil)\<close>: \<open>Inl err\<close> or \<open>Inr p\<close>.
\<close>

definition Client_subscriberPage ::
  "'w stdlib \<Rightarrow> 'w Client \<Rightarrow> int \<Rightarrow> SubscriberQuery option \<Rightarrow> 'w sys \<Rightarrow>
   (error + subscriberPage) outcome \<times> 'w sys" where
  "Client_subscriberPage lib c page query s =
     (if Secret (config c) = '''' then (Returns (Inl ErrSecretMissing), s)
      else
        (let url = Endpoint (config c) @ ''/v3/subscribers?api_secret='' @ Secret (config c) @
                   ''&page='' @ show_int page in
         case subscriberPage_query lib query (world s) url of
           Inl err \<Rightarrow> (Returns (Inl err), s)
         | Inr url \<Rightarrow>
             (case Client_sendRequest lib c ''GET'' url None (decode_page lib) subscriberPage_zero s of
                (Panics pn, s') \<Rightarrow> (Panics pn, s')
              | (Returns (p, Some err), s') \<Rightarrow> (Returns (Inl err), s')
              | (Returns (p, None), s') \<Rightarrow> (Returns (Inr p), s'))))"

text \<open>
  The instrument on the page fetcher: when a call of \<^verbatim>\<open>subscriberPage\<close> for \<open>page\<close>
  returns, the page number and the result are appended to \<open>calls\<close>.
\<close>

definition record_call ::
  "int \<Rightarrow> (error + subscriberPage) outcome \<times> 'w sys \<Rightarrow> (error + subscriberPage) outcome \<times> 'w sys" where
  "record_call page r =
     (case r of
        (Returns res, s) \<Rightarrow> (Returns res, s\<lparr>calls := calls s @ [(page, res)]\<rparr>)
      | (Panics pn, s) \<Rightarrow> (Panics pn, s))"

definition Client_TotalSubscribers ::
  "'w stdlib \<Rightarrow> 'w Client \<Rightarrow> 'w sys \<Rightarrow> (int \<times> error option) outcome \<times> 'w sys" where
  "Client_TotalSubscribers lib c s =
     (case record_call 1 (Client_subscriberPage lib c 1 None s) of
        (Panics pn, s') \<Rightarrow> (Panics pn, s')
      | (Returns (Inl err), s') \<Rightarrow> (Returns (0, Some err), s')
      | (Returns (Inr p), s') \<Rightarrow> (Returns (TotalSubscribers p, None), s'))"

subsection \<open>Tagging a subscriber\<close>

definition Client_CreateTagSubscription ::
  "'w stdlib \<Rightarrow> 'w Client \<Rightarrow> SubscriptionRequest \<Rightarrow> 'w sys \<Rightarrow>
   (Subscription \<times> error option) outcome \<times> 'w sys" where
  "Client_CreateTagSubscription lib c req0 s =
     (let subscription = Subscription_zero in
      if length (Tags req0) < 1
      then (Returns (subscription,
              Some (ErrorsNew ''Must specify at least one Tag to create a subscription'')), s)
      else
        (let req = (if APIKey req0 = '''' then req0\<lparr>APIKey := Key (config c)\<rparr> else req0);
             path = ''/v3/tags/'' @ show_int (Tags req ! 0) @ ''/subscribe''
         in Client_postJSON lib c path req (decode_subscription lib) Subscription_zero s))"

definition Client_TagSubscriber ::
  "'w stdlib \<Rightarrow> 'w Client \<Rightarrow> string \<Rightarrow> int \<Rightarrow> 'w sys \<Rightarrow>
   (Subscription \<times> error option) outcome \<times> 'w sys" where
  "Client_TagSubscriber lib c email tagID s =
     Client_CreateTagSubscription lib c
       (SubscriptionRequest_zero\<lparr>Email := email, Tags := [tagID]\<rparr>) s"

subsection \<open>Fetching all pages: the goroutines of \<^verbatim>\<open>Subscribers\<close>\<close>

text \<open>
  \<^verbatim>\<open>Subscribers\<close> starts one goroutine per page 2..total through \<^verbatim>\<open>errgroup.Group.Go\<close>.
  Each goroutine runs
  \<^verbatim>\<open>limiter <- true; defer func() { <-limiter }(); p, err := c.subscriberPage(i, query);
  if err == nil { pages[i-1] = *p }; return err\<close>
  and the group then records the first non-nil error and marks the goroutine done. A
  goroutine is at one of five points:
  \<^item> \<open>Queued\<close>: about to send on \<^verbatim>\<open>limiter\<close>;
  \<^item> \<open>Admitted\<close>: it has sent on \<^verbatim>\<open>limiter\<close> and its call of \<^verbatim>\<open>subscriberPage\<close> has not
    returned yet;
  \<^item> \<open>Fetched err\<close>: the call has returned \<open>err\<close> (and the page is stored when \<open>err\<close> is
    nil); the deferred receive from \<^verbatim>\<open>limiter\<close> is next;
  \<^item> \<open>Released err\<close>: it has received from \<^verbatim>\<open>limiter\<close>; the group's bookkeeping for the
    returned \<open>err\<close> is next;
  \<^item> \<open>Done\<close>.
\<close>

datatype goroutine =
    Queued
  | Admitted
  | Fetched "error option"
  | Released "error option"
  | Done

text \<open>
  The state shared by the goroutines: the buffered channel \<^verbatim>\<open>limiter\<close> (its capacity and
  the number of values it holds; the values are all \<^verbatim>\<open>true\<close>), the goroutine of every page
  number, the slice \<^verbatim>\<open>pages\<close>, the error of the group, and the panic that has ended the
  process, if any.
\<close>

record 'w group =
  gsys :: "'w sys"
  capacity :: nat
  limiter :: nat
  workers :: "int \<Rightarrow> goroutine"
  pages :: "subscriberPage list"
  gerr :: "error option"
  crashed :: "panic option"

text \<open>
  One step of the goroutine of page \<open>i\<close>. A send on a full channel and a receive from an
  empty one block: the goroutine stays where it is. (With capacity 0 the channel is
  unbuffered, and a send needs a goroutine receiving at the same moment; the only receives
  are the deferred ones of goroutines that have sent already, so no send goes through.)
  After a panic nothing runs.
\<close>

definition step ::
  "'w stdlib \<Rightarrow> 'w Client \<Rightarrow> SubscriberQuery option \<Rightarrow> int \<Rightarrow> 'w group \<Rightarrow> 'w group" where
  "step lib c query i g =
     (if crashed g = None \<and> 2 \<le> i \<and> i \<le> int (length (pages g)) then
        (case workers g i of
           Queued \<Rightarrow>
             if limiter g < capacity g
             then g\<lparr>limiter := limiter g + 1, workers := (workers g)(i := Admitted)\<rparr>
             else g
         | Admitted \<Rightarrow>
             (case record_call i (Client_subscriberPage lib c i query (gsys g)) of
                (Panics pn, s') \<Rightarrow> g\<lparr>gsys := s', crashed := Some pn\<rparr>
              | (Returns (Inl err), s') \<Rightarrow>
                  g\<lparr>gsys := s', workers := (workers g)(i := Fetched (Some err))\<rparr>
              | (Returns (Inr p), s') \<Rightarrow>
                  g\<lparr>gsys := s', pages := (pages g)[nat (i - 1) := p],
                    workers := (workers g)(i := Fetched None)\<rparr>)
         | Fetched err \<Rightarrow>
             if 0 < limiter g
             then g\<lparr>limiter := limiter g - 1, workers := (workers g)(i := Released err)\<rparr>
             else g
         | Released err \<Rightarrow>
             g\<lparr>gerr := (case gerr g of None \<Rightarrow> err | Some e \<Rightarrow> Some e),
               workers := (workers g)(i := Done)\<rparr>
         | Done \<Rightarrow> g)
      else g)"

text \<open>
  A schedule is the list of the page numbers whose goroutines take the next steps, in
  order: the interleaving the Go scheduler and the network happen to produce.
\<close>

fun run ::
  "'w stdlib \<Rightarrow> 'w Client \<Rightarrow> SubscriberQuery option \<Rightarrow> int list \<Rightarrow> 'w group \<Rightarrow> 'w group" where
  "run lib c query [] g = g"
| "run lib c query (i # sched) g = run lib c query sched (step lib c query i g)"

text \<open>
  The state when the goroutines start: \<^verbatim>\<open>limiter\<close> empty, \<^verbatim>\<open>pages\<close> of length
  \<^verbatim>\<open>total\<close> with page 1 at index 0, no error.
\<close>

definition spawn :: "nat \<Rightarrow> subscriberPage \<Rightarrow> 'w sys \<Rightarrow> 'w group" where
  "spawn cap p s =
     \<lparr>gsys = s, capacity = cap, limiter = 0, workers = (\<lambda>i. Queued),
      pages = (replicate (nat (TotalPages p)) subscriberPage_zero)[0 := p],
      gerr = None, crashed = None\<rparr>"

text \<open>\<^verbatim>\<open>g.Wait()\<close> returns once every goroutine is done.\<close>

definition all_done :: "'w group \<Rightarrow> bool" where
  "all_done g = list_all (\<lambda>i. workers g i = Done) [2..int (length (pages g))]"

text \<open>The calls of \<^verbatim>\<open>subscriberPage\<close> in progress.\<close>

definition outstanding :: "'w group \<Rightarrow> nat" where
  "outstanding g = length (filter (\<lambda>i. workers g i = Admitted) [2..int (length (pages g))])"

text \<open>
  The final loop
  \<^verbatim>\<open>for i := 0; i < total; i++ { subscribers = append(subscribers, pages[i].Subscribers...) }\<close>.
\<close>

function Subscribers_append ::
  "subscriberPage list \<Rightarrow> int \<Rightarrow> int \<Rightarrow> Subscriber list \<Rightarrow> Subscriber list" where
  "Subscribers_append pgs i tot subscribers =
     (if i < tot
      then Subscribers_append pgs (i + 1) tot (subscribers @ Subscribers (pgs ! nat i))
      else subscribers)"
  by pat_completeness auto
termination
  by (relation "measure (\<lambda>(pgs, i, tot, subscribers). nat (tot - i))") auto

declare Subscribers_append.simps [simp del]

text \<open>
  \<^verbatim>\<open>Subscribers\<close> under the schedule \<open>sched\<close> of its goroutines. The result is \<open>None\<close>
  when \<^verbatim>\<open>g.Wait()\<close> has not returned by the end of the schedule.
\<close>

definition Client_Subscribers ::
  "'w stdlib \<Rightarrow> 'w Client \<Rightarrow> SubscriberQuery option \<Rightarrow> int list \<Rightarrow> 'w sys \<Rightarrow>
   (Subscriber list \<times> error option) outcome option \<times> 'w sys" where
  "Client_Subscribers lib c query sched s =
     (case record_call 1 (Client_subscriberPage lib c 1 query s) of
        (Panics pn, s1) \<Rightarrow> (Some (Panics pn), s1)
      | (Returns (Inl err), s1) \<Rightarrow> (Some (Returns ([], Some err)), s1)
      | (Returns (Inr p), s1) \<Rightarrow>
          (let total = TotalPages p in
           if total \<le> 1 then (Some (Returns (Subscribers p, None)), s1)
           else if ConcurrentRequests (config c) < 0
           then (Some (Panics MakechanSizeOutOfRange), s1)
           else
             (let g = run lib c query sched (spawn (nat (ConcurrentRequests (config c))) p s1) in
              case crashed g of
                Some pn \<Rightarrow> (Some (Panics pn), gsys g)
              | None \<Rightarrow>
                  if \<not> all_done g then (None, gsys g)
                  else
                    (case gerr g of
                       Some err \<Rightarrow> (Some (Returns ([], Some err)), gsys g)
                     | None \<Rightarrow>
                         (Some (Returns (Subscribers_append (pages g) 0 total [], None)),
                          gsys g)))))"

subsection \<open>A concrete service\<close>

text \<open>
  A small instance of the parameters, on which the definitions are evaluated: a service
  with four subscribers on three pages behind \<^verbatim>\<open>https://ck\<close>, the same service with a
  failing third page behind \<^verbatim>\<open>https://flaky\<close>, a service with one subscriber on one page
  behind \<^verbatim>\<open>https://solo\<close>, and the answer 401 to every other request. The world is the
  number of requests served.
\<close>

definition example_subscriber :: "int \<Rightarrow> string \<Rightarrow> Subscriber" where
  "example_subscriber n a = Subscriber_zero\<lparr>ID := n, EmailAddress := a, State := ''active''\<rparr>"

definition example_page :: "int \<Rightarrow> subscriberPage" where
  "example_page n =
     \<lparr>TotalSubscribers = 4, Page = n, TotalPages = 3,
      Subscribers =
        (if n = 1 then [example_subscriber 1 ''a@ck'', example_subscriber 2 ''b@ck'']
         else if n = 2 then [example_subscriber 3 ''c@ck'']
         else [example_subscriber 4 ''d@ck''])\<rparr>"

definition example_solo :: subscriberPage where
  "example_solo =
     \<lparr>TotalSubscribers = 1, Page = 1, TotalPages = 1,
      Subscribers = [example_subscriber 9 ''z@ck'']\<rparr>"

definition example_response :: "int \<Rightarrow> string \<Rightarrow> string \<Rightarrow> http_response" where
  "example_response code st b = \<lparr>StatusCode = code, Status = st, Body = b\<rparr>"

definition example_server :: "nat http_client" where
  "example_server w req =
     (if URL req = ''https://ck/v3/subscribers?api_secret=s&page=1''
      then Inr (example_response 200 ''200 OK'' ''page1'')
      else if URL req = ''https://ck/v3/subscribers?api_secret=s&page=2''
      then Inr (example_response 200 ''200 OK'' ''page2'')
      else if URL req = ''https://ck/v3/subscribers?api_secret=s&page=3''
      then Inr (example_response 200 ''200 OK'' ''page3'')
      else if URL req = ''https://flaky/v3/subscribers?api_secret=s&page=1''
      then Inr (example_response 200 ''200 OK'' ''page1'')
      else if URL req = ''https://flaky/v3/subscribers?api_secret=s&page=2''
      then Inr (example_response 200 ''200 OK'' ''page2'')
      else if URL req = ''https://flaky/v3/subscribers?api_secret=s&page=3''
      then Inr (example_response 500 ''500 Internal Server Error'' [])
      else if URL req = ''https://solo/v3/subscribers?api_secret=s&page=1''
      then Inr (example_response 200 ''200 OK'' ''solo'')
      else Inr (example_response 401 ''401 Unauthorized'' []),
      Suc w)"

definition example_lib :: "nat stdlib" where
  "example_lib =
     \<lparr>os_Getenv = (\<lambda>v. []),
      http_DefaultClient = example_server,
      strings_ToLower = (\<lambda>d. d),
      time_Yesterday = (\<lambda>w. ''2020-01-01''),
      time_Parse = (\<lambda>d. if length d = 10 then None else Some (External ''cannot parse'')),
      http_NewRequest = (\<lambda>m u. None),
      json_Marshal = (\<lambda>r. Inr (''email='' @ Email r @ '';api_key='' @ APIKey r)),
      decode_page = (\<lambda>b out.
        if b = ''page1'' then (example_page 1, None)
        else if b = ''page2'' then (example_page 2, None)
        else if b = ''page3'' then (example_page 3, None)
        else if b = ''solo'' then (example_solo, None)
        else (out, Some (External ''unexpected end of JSON input''))),
      decode_subscription = (\<lambda>b out. (out, Some (External ''unexpected end of JSON input'')))\<rparr>"

definition example_config :: "string \<Rightarrow> string \<Rightarrow> string \<Rightarrow> int \<Rightarrow> nat Config" where
  "example_config e k sec n =
     \<lparr>Endpoint = e, Key = k, Secret = sec, ConcurrentRequests = n, HTTPClient = None\<rparr>"

definition example_client :: "string \<Rightarrow> string \<Rightarrow> string \<Rightarrow> int \<Rightarrow> nat Client" where
  "example_client e k sec n = fst (NewClient example_lib (example_config e k sec n))"

definition example_sys :: "nat sys" where
  "example_sys = \<lparr>world = 0, sent = [], calls = []\<rparr>"

definition example_get :: "string \<Rightarrow> string \<Rightarrow> http_request" where
  "example_get e n =
     \<lparr>Method = ''GET'', URL = e @ ''/v3/subscribers?api_secret=s&page='' @ n,
      ContentType = None, ReqBody = None\<rparr>"

definition example_500 :: error where
  "example_500 = Errorf ''HTTP error: 500 Internal Server Error''"

definition example_401 :: error where
  "example_401 = Errorf ''HTTP error: 401 Unauthorized''"

subsection \<open>Measures and invariants of the goroutines\<close>

text \<open>
  A goroutine holds a slot of \<^verbatim>\<open>limiter\<close> between its send and its deferred receive; its
  call of \<^verbatim>\<open>subscriberPage\<close> has returned from \<open>Fetched\<close> on; \<open>rank\<close> counts the steps it
  still has to take.
\<close>

fun holding :: "goroutine \<Rightarrow> bool" where
  "holding Admitted = True"
| "holding (Fetched err) = True"
| "holding w = False"

fun returned :: "goroutine \<Rightarrow> bool" where
  "returned Queued = False"
| "returned Admitted = False"
| "returned w = True"

fun rank :: "goroutine \<Rightarrow> nat" where
  "rank Queued = 4"
| "rank Admitted = 3"
| "rank (Fetched err) = 2"
| "rank (Released err) = 1"
| "rank Done = 0"

text \<open>The sum of a measure over the goroutines of pages 2..total.\<close>

definition tally :: "(goroutine \<Rightarrow> nat) \<Rightarrow> 'w group \<Rightarrow> nat" where
  "tally f g = sum_list (map (\<lambda>i. f (workers g i)) [2..int (length (pages g))])"

definition holders :: "'w group \<Rightarrow> nat" where
  "holders g = tally (\<lambda>w. if holding w then 1 else 0) g"

text \<open>
  The channel holds one value per goroutine between its send and its receive, and never
  more than its capacity; a goroutine that has got past its send proves the capacity
  positive.
\<close>

definition slots_inv :: "'w group \<Rightarrow> bool" where
  "slots_inv g =
     (limiter g = holders g \<and> limiter g \<le> capacity g \<and>
      (\<forall>i. 2 \<le> i \<and> i \<le> int (length (pages g)) \<and> workers g i \<noteq> Queued \<longrightarrow> 0 < capacity g))"

text \<open>
  What the record of calls says about the goroutines, \<open>n\<close> calls having been recorded
  before they started: every goroutine whose call has returned has exactly one entry,
  and nothing else has; a page that came back is stored at its index; a goroutine that
  still carries its result carries the recorded one; a recorded failure of a goroutine
  that is done has left an error in the group; and the error of the group is a recorded
  failure.
\<close>

definition log_inv :: "nat \<Rightarrow> 'w group \<Rightarrow> bool" where
  "log_inv n g =
     (let log = drop n (calls (gsys g)); T = int (length (pages g)) in
      n \<le> length (calls (gsys g)) \<and>
      distinct (map fst log) \<and>
      (\<forall>i. (i \<in> fst ` set log) = (2 \<le> i \<and> i \<le> T \<and> returned (workers g i))) \<and>
      (\<forall>i p. (i, Inr p) \<in> set log \<longrightarrow> pages g ! nat (i - 1) = p) \<and>
      (\<forall>i. 2 \<le> i \<and> i \<le> T \<and> workers g i = Fetched None \<longrightarrow> (\<exists>p. (i, Inr p) \<in> set log)) \<and>
      (\<forall>i. 2 \<le> i \<and> i \<le> T \<and> workers g i = Released None \<longrightarrow> (\<exists>p. (i, Inr p) \<in> set log)) \<and>
      (\<forall>i err. 2 \<le> i \<and> i \<le> T \<and> workers g i = Fetched (Some err) \<longrightarrow> (i, Inl err) \<in> set log) \<and>
      (\<forall>i err. 2 \<le> i \<and> i \<le> T \<and> workers g i = Released (Some err) \<longrightarrow> (i, Inl err) \<in> set log) \<and>
      (\<forall>i err. (i, Inl err) \<in> set log \<and> workers g i = Done \<longrightarrow> gerr g \<noteq> None) \<and>
      (\<forall>err. gerr g = Some err \<longrightarrow> (\<exists>j. 2 \<le> j \<and> (j, Inl err) \<in> set log)))"

section \<open>Properties\<close>

subsection \<open>Tags\<close>

lemma AddTag_found_iff: "AddTag_found tags t = (t \<in> set tags)"
  by (induction tags) auto

lemma count_list_append_one: "count_list (xs @ [t]) t = Suc (count_list xs t)"
  by (induction xs) auto

lemma count_list_member: "(0 < count_list xs t) = (t \<in> set xs)"
  by (induction xs) auto

text \<open>
  C7, as amended. \<^verbatim>\<open>AddTag\<close> is idempotent on the tags of a request: adding \<open>t\<close> twice
  gives the same \<open>Tags\<close> as adding it once; the result contains \<open>t\<close>, as often as the
  request did before when it did, and once otherwise, so exactly once whenever the
  request held \<open>t\<close> at most once; a request that holds \<open>t\<close> is unchanged, and otherwise \<open>t\<close>
  is appended at the end.
\<close>

theorem AddTag_idempotent:
  "Tags (AddTag (AddTag r t) t) = Tags (AddTag r t) \<and>
   count_list (Tags (AddTag r t)) t = max 1 (count_list (Tags r) t) \<and>
   (count_list (Tags r) t \<le> 1 \<longrightarrow> count_list (Tags (AddTag r t)) t = 1) \<and>
   (t \<in> set (Tags r) \<longrightarrow> Tags (AddTag r t) = Tags r) \<and>
   (t \<notin> set (Tags r) \<longrightarrow> Tags (AddTag r t) = Tags r @ [t])"
proof (cases "t \<in> set (Tags r)")
  case True
  then have "0 < count_list (Tags r) t"
    by (simp add: count_list_member)
  with True show ?thesis
    by (auto simp: AddTag_def AddTag_found_iff)
next
  case False
  then have "count_list (Tags r) t = 0"
    using count_list_member [of "Tags r" t] by simp
  with False show ?thesis
    by (simp add: AddTag_def AddTag_found_iff count_list_append_one)
qed

theorem AddTag_idempotent_witness:
  "count_list (Tags (SubscriptionRequest_zero\<lparr>Tags := [3]\<rparr>)) 5 \<le> 1 \<and>
   count_list (Tags (AddTag (SubscriptionRequest_zero\<lparr>Tags := [3]\<rparr>) 5)) 5 = 1 \<and>
   5 \<notin> set (Tags (SubscriptionRequest_zero\<lparr>Tags := [3]\<rparr>)) \<and>
   Tags (AddTag (SubscriptionRequest_zero\<lparr>Tags := [3]\<rparr>) 5) = [3, 5] \<and>
   3 \<in> set (Tags (SubscriptionRequest_zero\<lparr>Tags := [3]\<rparr>)) \<and>
   Tags (AddTag (SubscriptionRequest_zero\<lparr>Tags := [3]\<rparr>) 3) = [3]"
  using AddTag_idempotent [of "SubscriptionRequest_zero\<lparr>Tags := [3]\<rparr>" 5]
    AddTag_idempotent [of "SubscriptionRequest_zero\<lparr>Tags := [3]\<rparr>" 3]
  by (simp add: SubscriptionRequest_zero_def)

text \<open>
  A request whose \<open>Tags\<close> hold 5 twice still holds it twice after \<^verbatim>\<open>AddTag(5)\<close>: the
  field is a plain slice that a caller may fill with duplicates, and \<^verbatim>\<open>AddTag\<close> only
  declines to add another.
\<close>

theorem AddTag_exactly_once_counterexample:
  "count_list (Tags (AddTag (SubscriptionRequest_zero\<lparr>Tags := [5, 5]\<rparr>) 5)) 5 \<noteq> 1"
  by (simp add: AddTag_def SubscriptionRequest_zero_def)

subsection \<open>Tagging a subscriber\<close>

text \<open>
  C8. For a request with no tags \<^verbatim>\<open>CreateTagSubscription\<close> returns the zero
  \<^verbatim>\<open>Subscription\<close> with a validation error and leaves the state as it was: no request is
  sent.
\<close>

theorem CreateTagSubscription_no_tags:
  assumes "Tags req = []"
  shows "Client_CreateTagSubscription lib c req s =
           (Returns (Subscription_zero,
              Some (ErrorsNew ''Must specify at least one Tag to create a subscription'')), s)"
  using assms by (simp add: Client_CreateTagSubscription_def)

theorem CreateTagSubscription_no_tags_witness:
  "Tags (SubscriptionRequest_zero\<lparr>Email := ''a@b.c''\<rparr>) = [] \<and>
   Client_CreateTagSubscription example_lib (example_client ''https://ck'' ''k'' ''s'' 2)
       (SubscriptionRequest_zero\<lparr>Email := ''a@b.c''\<rparr>) example_sys =
     (Returns (Subscription_zero,
        Some (ErrorsNew ''Must specify at least one Tag to create a subscription'')), example_sys) \<and>
   sent example_sys = []"
  using CreateTagSubscription_no_tags [of "SubscriptionRequest_zero\<lparr>Email := ''a@b.c''\<rparr>"
      example_lib "example_client ''https://ck'' ''k'' ''s'' 2" example_sys]
  by (simp add: SubscriptionRequest_zero_def example_sys_def)

text \<open>
  \<^verbatim>\<open>CreateTagSubscription\<close> does not look at the key it ends up with: with none in the
  request and none in the configuration, a request that has a tag is posted all the same.
\<close>

lemma CreateTagSubscription_key_unchecked:
  assumes "Tags req \<noteq> []" "APIKey req = []" "Key (config c) = []"
    and "json_Marshal lib (req\<lparr>APIKey := []\<rparr>) = Inr body"
    and "url = Endpoint (config c) @ ''/v3/tags/'' @ show_int (Tags req ! 0) @ ''/subscribe''"
    and "http_NewRequest lib ''POST'' url = None"
    and "HTTPClient (config c) = Some client"
  shows "sent (snd (Client_CreateTagSubscription lib c req s)) =
           sent s @ [\<lparr>Method = ''POST'', URL = url, ContentType = Some ''application/json'',
                      ReqBody = Some body\<rparr>]"
  using assms
  by (cases "Tags req")
    (simp_all add: Client_CreateTagSubscription_def Client_postJSON_def Let_def
      split: prod.splits sum.splits)

text \<open>
  C9 does not hold of the code. With no API key in the request and none in the
  configuration, \<^verbatim>\<open>TagSubscriber\<close> (through \<^verbatim>\<open>CreateTagSubscription\<close>) posts the request
  with an empty key and reports what the service answers; \<^verbatim>\<open>ErrKeyMissing\<close> is never
  returned.
\<close>

theorem TagSubscriber_without_key_sends_request:
  "Key (config (example_client ''https://ck'' [] ''s'' 2)) = [] \<and>
   Client_TagSubscriber example_lib (example_client ''https://ck'' [] ''s'' 2) ''a@b.c'' 7
       example_sys =
     (Returns (Subscription_zero, Some (Errorf ''HTTP error: 401 Unauthorized'')),
      \<lparr>world = 1,
       sent = [\<lparr>Method = ''POST'', URL = ''https://ck/v3/tags/7/subscribe'',
                ContentType = Some ''application/json'',
                ReqBody = Some ''email=a@b.c;api_key=''\<rparr>],
       calls = []\<rparr>)"
  by code_simp

text \<open>
  C10. \<^verbatim>\<open>TagSubscriber(email, tagID)\<close> is \<^verbatim>\<open>CreateTagSubscription\<close> of the request with
  that email, the one tag, and every other field zero.
\<close>

theorem TagSubscriber_is_CreateTagSubscription:
  "Client_TagSubscriber lib c email tagID s =
     Client_CreateTagSubscription lib c
       \<lparr>Email = email, ReqFirstName = [], ReqFields = Mapping.empty, Tags = [tagID],
        APIKey = []\<rparr> s"
  by (simp add: Client_TagSubscriber_def SubscriptionRequest_zero_def)

subsection \<open>One page\<close>

lemma subscriberPage_secret_missing:
  "Secret (config c) = [] \<Longrightarrow>
   Client_subscriberPage lib c page query s = (Returns (Inl ErrSecretMissing), s)"
  by (simp add: Client_subscriberPage_def)

text \<open>
  C6. With an empty \<open>Secret\<close>, \<^verbatim>\<open>Subscribers\<close> (under every schedule) and
  \<^verbatim>\<open>TotalSubscribers\<close> return \<^verbatim>\<open>ErrSecretMissing\<close>, and neither hands a request to the HTTP
  client nor touches the world.
\<close>

theorem secret_missing:
  assumes "Secret (config c) = []"
  shows "fst (Client_Subscribers lib c query sched s) = Some (Returns ([], Some ErrSecretMissing)) \<and>
         sent (snd (Client_Subscribers lib c query sched s)) = sent s \<and>
         world (snd (Client_Subscribers lib c query sched s)) = world s \<and>
         fst (Client_TotalSubscribers lib c s) = Returns (0, Some ErrSecretMissing) \<and>
         sent (snd (Client_TotalSubscribers lib c s)) = sent s \<and>
         world (snd (Client_TotalSubscribers lib c s)) = world s"
  using assms
  by (simp add: Client_Subscribers_def Client_TotalSubscribers_def
      subscriberPage_secret_missing record_call_def)

theorem secret_missing_witness:
  "Secret (config (example_client ''https://ck'' ''k'' [] 2)) = [] \<and>
   fst (Client_Subscribers example_lib (example_client ''https://ck'' ''k'' [] 2) None [2, 3]
          example_sys) = Some (Returns ([], Some ErrSecretMissing)) \<and>
   sent (snd (Client_Subscribers example_lib (example_client ''https://ck'' ''k'' [] 2) None [2, 3]
          example_sys)) = [] \<and>
   fst (Client_TotalSubscribers example_lib (example_client ''https://ck'' ''k'' [] 2) example_sys) =
     Returns (0, Some ErrSecretMissing) \<and>
   sent (snd (Client_TotalSubscribers example_lib (example_client ''https://ck'' ''k'' [] 2)
          example_sys)) = []"
proof -
  have h: "Secret (config (example_client ''https://ck'' ''k'' [] 2)) = []"
    by code_simp
  have e: "sent example_sys = []"
    by (simp add: example_sys_def)
  show ?thesis
    using h e secret_missing [OF h, of example_lib None "[2, 3]" example_sys]
      by simp
qed

subsection \<open>The page fetch and the steps of a goroutine\<close>

lemma sendRequest_calls:
  "Client_sendRequest lib c m u b dec out s = (r, s') \<Longrightarrow> calls s' = calls s"
  by (auto simp: Client_sendRequest_def Let_def split: option.splits prod.splits sum.splits if_splits)

lemma subscriberPage_calls:
  "Client_subscriberPage lib c page query s = (r, s') \<Longrightarrow> calls s' = calls s"
  by (auto simp: Client_subscriberPage_def Let_def dest: sendRequest_calls
      split: if_splits sum.splits prod.splits outcome.splits option.splits)

lemma sendRequest_panics:
  "Client_sendRequest lib c m u b dec out s = (Panics pn, s') \<Longrightarrow> HTTPClient (config c) = None"
  by (auto simp: Client_sendRequest_def Let_def split: option.splits prod.splits sum.splits if_splits)

lemma subscriberPage_panics:
  "Client_subscriberPage lib c page query s = (Panics pn, s') \<Longrightarrow> HTTPClient (config c) = None"
  by (auto simp: Client_subscriberPage_def Let_def dest: sendRequest_panics
      split: if_splits sum.splits prod.splits outcome.splits option.splits)

lemma sendRequest_ok:
  "Client_sendRequest lib c m u b dec out s = (Returns (x, None), s') \<Longrightarrow> HTTPClient (config c) \<noteq> None"
  by (auto simp: Client_sendRequest_def Let_def split: option.splits prod.splits sum.splits if_splits)

lemma subscriberPage_ok:
  "Client_subscriberPage lib c page query s = (Returns (Inr p), s') \<Longrightarrow> HTTPClient (config c) \<noteq> None"
  by (auto simp: Client_subscriberPage_def Let_def dest: sendRequest_ok
      split: if_splits sum.splits prod.splits outcome.splits option.splits)

lemma map_update_other:
  "i \<notin> set xs \<Longrightarrow> map (\<lambda>j. f ((w(i := v)) j)) xs = map (\<lambda>j. f (w j)) xs"
  by (induction xs) auto

lemma sum_list_update:
  "distinct xs \<Longrightarrow> i \<in> set xs \<Longrightarrow>
   sum_list (map (\<lambda>j. f ((w(i := v)) j)) xs) + f (w i) = sum_list (map (\<lambda>j. f (w j)) xs) + (f v :: nat)"
proof (induction xs)
  case Nil
  then show ?case by simp
next
  case (Cons x xs)
  show ?case
  proof (cases "x = i")
    case True
    with Cons.prems have "i \<notin> set xs" by simp
    then have m: "map (\<lambda>j. f ((w(i := v)) j)) xs = map (\<lambda>j. f (w j)) xs"
      by (rule map_update_other)
    have "sum_list (map (\<lambda>j. f ((w(i := v)) j)) xs) = sum_list (map (\<lambda>j. f (w j)) xs)"
      by (rule arg_cong [OF m])
    with True show ?thesis by simp
  next
    case False
    with Cons show ?thesis by simp
  qed
qed

lemma step_cases [case_names idle acquire panic fail ok release finish]:
  obtains
    "step lib c q i g = g"
  | "crashed g = None" "2 \<le> i" "i \<le> int (length (pages g))" "workers g i = Queued"
    "limiter g < capacity g"
    "step lib c q i g = g\<lparr>limiter := limiter g + 1, workers := (workers g)(i := Admitted)\<rparr>"
  | pn s' where "crashed g = None" "2 \<le> i" "i \<le> int (length (pages g))" "workers g i = Admitted"
    "Client_subscriberPage lib c i q (gsys g) = (Panics pn, s')"
    "step lib c q i g = g\<lparr>gsys := s', crashed := Some pn\<rparr>"
  | err s' where "crashed g = None" "2 \<le> i" "i \<le> int (length (pages g))" "workers g i = Admitted"
    "Client_subscriberPage lib c i q (gsys g) = (Returns (Inl err), s')"
    "step lib c q i g =
       g\<lparr>gsys := s'\<lparr>calls := calls s' @ [(i, Inl err)]\<rparr>,
         workers := (workers g)(i := Fetched (Some err))\<rparr>"
  | p s' where "crashed g = None" "2 \<le> i" "i \<le> int (length (pages g))" "workers g i = Admitted"
    "Client_subscriberPage lib c i q (gsys g) = (Returns (Inr p), s')"
    "step lib c q i g =
       g\<lparr>gsys := s'\<lparr>calls := calls s' @ [(i, Inr p)]\<rparr>, pages := (pages g)[nat (i - 1) := p],
         workers := (workers g)(i := Fetched None)\<rparr>"
  | e where "crashed g = None" "2 \<le> i" "i \<le> int (length (pages g))" "workers g i = Fetched e"
    "0 < limiter g"
    "step lib c q i g = g\<lparr>limiter := limiter g - 1, workers := (workers g)(i := Released e)\<rparr>"
  | e where "crashed g = None" "2 \<le> i" "i \<le> int (length (pages g))" "workers g i = Released e"
    "step lib c q i g =
       g\<lparr>gerr := (case gerr g of None \<Rightarrow> e | Some x \<Rightarrow> Some x), workers := (workers g)(i := Done)\<rparr>"
proof (cases "crashed g = None \<and> 2 \<le> i \<and> i \<le> int (length (pages g))")
  case False
  then have "step lib c q i g = g" by (auto simp: step_def)
  then show ?thesis by (rule that(1))
next
  case True
  show ?thesis
  proof (cases "workers g i")
    case Queued
    show ?thesis
    proof (cases "limiter g < capacity g")
      case True
      with Queued \<open>crashed g = None \<and> 2 \<le> i \<and> i \<le> int (length (pages g))\<close> show ?thesis
        by (intro that(2)) (auto simp: step_def)
    next
      case False
      with Queued show ?thesis by (intro that(1)) (auto simp: step_def)
    qed
  next
    case Admitted
    obtain r s' where rs: "Client_subscriberPage lib c i q (gsys g) = (r, s')"
      by (cases "Client_subscriberPage lib c i q (gsys g)")
    show ?thesis
    proof (cases r)
      case (Panics pn)
      with Admitted True rs show ?thesis
        by (intro that(3)[of pn s']) (auto simp: step_def record_call_def)
    next
      case (Returns res)
      show ?thesis
      proof (cases res)
        case (Inl err)
        with Returns Admitted True rs show ?thesis
          by (intro that(4)[of err s']) (auto simp: step_def record_call_def)
      next
        case (Inr p)
        with Returns Admitted True rs show ?thesis
          by (intro that(5)[of p s']) (auto simp: step_def record_call_def)
      qed
    qed
  next
    case (Fetched e)
    show ?thesis
    proof (cases "0 < limiter g")
      case True
      with Fetched \<open>crashed g = None \<and> 2 \<le> i \<and> i \<le> int (length (pages g))\<close> show ?thesis
        by (intro that(6)[of e]) (auto simp: step_def)
    next
      case False
      with Fetched show ?thesis by (intro that(1)) (auto simp: step_def)
    qed
  next
    case (Released e)
    with True show ?thesis
      by (intro that(7)[of e]) (auto simp: step_def)
  next
    case Done
    then show ?thesis by (intro that(1)) (auto simp: step_def)
  qed
qed

subsection \<open>The admission channel\<close>

lemma tally_update:
  assumes "2 \<le> i" "i \<le> int (length (pages g))" "length (pages g') = length (pages g)"
    "workers g' = (workers g)(i := v)"
  shows "tally f g' + f (workers g i) = tally f g + f v"
proof -
  have "distinct [2..int (length (pages g))]" "i \<in> set [2..int (length (pages g))]"
    using assms by simp_all
  from sum_list_update [OF this, of f "workers g" v] show ?thesis
    using assms by (simp add: tally_def)
qed

lemma tally_same:
  "length (pages g') = length (pages g) \<Longrightarrow> workers g' = workers g \<Longrightarrow> tally f g' = tally f g"
  by (simp add: tally_def)

lemma step_length_pages [simp]: "length (pages (step lib c q i g)) = length (pages g)"
  by (cases rule: step_cases [of lib c q i g]) simp_all

lemma step_capacity [simp]: "capacity (step lib c q i g) = capacity g"
  by (cases rule: step_cases [of lib c q i g]) simp_all

lemma run_length_pages [simp]: "length (pages (run lib c q sched g)) = length (pages g)"
  by (induction sched arbitrary: g) simp_all

lemma run_capacity [simp]: "capacity (run lib c q sched g) = capacity g"
  by (induction sched arbitrary: g) simp_all

lemma run_append: "run lib c q (xs @ ys) g = run lib c q ys (run lib c q xs g)"
  by (induction xs arbitrary: g) simp_all

lemma step_slots_inv:
  assumes "slots_inv g"
  shows "slots_inv (step lib c q i g)"
proof (cases rule: step_cases [of lib c q i g])
  case idle
  with assms show ?thesis by simp
next
  case acquire
  have "holders (step lib c q i g) + 0 = holders g + 1"
    unfolding holders_def
    using tally_update [of i g "step lib c q i g" Admitted "\<lambda>w. if holding w then 1 else 0"] acquire
    by simp
  with assms acquire show ?thesis
    by (auto simp: slots_inv_def)
next
  case (panic pn s')
  have "holders (step lib c q i g) = holders g"
    unfolding holders_def using panic by (intro tally_same) simp_all
  with assms panic show ?thesis
    by (auto simp: slots_inv_def)
next
  case (fail err s')
  have "holders (step lib c q i g) + 1 = holders g + 1"
    unfolding holders_def
    using tally_update [of i g "step lib c q i g" "Fetched (Some err)" "\<lambda>w. if holding w then 1 else 0"] fail
    by simp
  with assms fail show ?thesis
    by (auto simp: slots_inv_def)
next
  case (ok p s')
  have "holders (step lib c q i g) + 1 = holders g + 1"
    unfolding holders_def
    using tally_update [of i g "step lib c q i g" "Fetched None" "\<lambda>w. if holding w then 1 else 0"] ok
    by simp
  with assms ok show ?thesis
    by (auto simp: slots_inv_def)
next
  case (release e)
  have "holders (step lib c q i g) + 1 = holders g + 0"
    unfolding holders_def
    using tally_update [of i g "step lib c q i g" "Released e" "\<lambda>w. if holding w then 1 else 0"] release
    by simp
  with assms release show ?thesis
    by (auto simp: slots_inv_def)
next
  case (finish e)
  have "holders (step lib c q i g) + 0 = holders g + 0"
    unfolding holders_def
    using tally_update [of i g "step lib c q i g" "Done" "\<lambda>w. if holding w then 1 else 0"] finish
    by simp
  with assms finish show ?thesis
    by (auto simp: slots_inv_def)
qed

lemma run_slots_inv: "slots_inv g \<Longrightarrow> slots_inv (run lib c q sched g)"
  by (induction sched arbitrary: g) (simp_all add: step_slots_inv)

lemma spawn_slots_inv: "slots_inv (spawn cap p s)"
  by (simp add: slots_inv_def spawn_def holders_def tally_def)

lemma outstanding_le_holders: "outstanding g \<le> holders g"
proof -
  have "length (filter (\<lambda>i. w i = Admitted) xs) \<le> sum_list (map (\<lambda>i. if holding (w i) then 1 else 0) xs)"
    for w :: "int \<Rightarrow> goroutine" and xs
    by (induction xs) auto
  then show ?thesis
    by (simp add: outstanding_def holders_def tally_def)
qed

lemma holders_pos:
  assumes "2 \<le> i" "i \<le> int (length (pages g))" "holding (workers g i)"
  shows "0 < holders g"
proof -
  have "i \<in> set [2..int (length (pages g))]"
    using assms by simp
  then have "(if holding (workers g i) then 1 else 0)
      \<le> sum_list (map (\<lambda>i. if holding (workers g i) then 1 else (0::nat)) [2..int (length (pages g))])"
    by (intro member_le_sum_list) auto
  with assms(3) show ?thesis
    by (simp add: holders_def tally_def)
qed

lemma holders_zero:
  assumes "\<And>i. 2 \<le> i \<Longrightarrow> i \<le> int (length (pages g)) \<Longrightarrow> \<not> holding (workers g i)"
  shows "holders g = 0"
  using assms by (simp add: holders_def tally_def)

subsection \<open>The record of calls\<close>

lemma log_inv_same:
  assumes "log_inv n g" "calls (gsys g') = calls (gsys g)" "pages g' = pages g"
    "workers g' = workers g" "gerr g' = gerr g"
  shows "log_inv n g'"
  using assms unfolding log_inv_def Let_def by simp

lemma log_inv_acquire:
  assumes "log_inv n g" "2 \<le> i" "i \<le> int (length (pages g))" "workers g i = Queued"
    "calls (gsys g') = calls (gsys g)" "pages g' = pages g"
    "workers g' = (workers g)(i := Admitted)" "gerr g' = gerr g"
  shows "log_inv n g'"
  using assms unfolding log_inv_def Let_def by auto

lemma log_inv_fail:
  assumes "log_inv n g" "2 \<le> i" "i \<le> int (length (pages g))" "workers g i = Admitted"
    "calls (gsys g') = calls (gsys g) @ [(i, Inl err)]" "pages g' = pages g"
    "workers g' = (workers g)(i := Fetched (Some err))" "gerr g' = gerr g"
  shows "log_inv n g'"
  using assms unfolding log_inv_def Let_def
  by (intro conjI) (simp, fastforce, (auto)[8])

lemma log_inv_ok:
  assumes inv: "log_inv n g" and i: "2 \<le> i" "i \<le> int (length (pages g))"
    and w: "workers g i = Admitted"
    and g': "calls (gsys g') = calls (gsys g) @ [(i, Inr p)]" "pages g' = (pages g)[nat (i - 1) := p]"
    "workers g' = (workers g)(i := Fetched None)" "gerr g' = gerr g"
  shows "log_inv n g'"
proof -
  define L where "L = drop n (calls (gsys g))"
  have n: "n \<le> length (calls (gsys g))"
    using inv by (simp add: log_inv_def Let_def)
  then have L': "drop n (calls (gsys g')) = L @ [(i, Inr p)]"
    by (simp add: g' L_def)
  have mem: "(j \<in> fst ` set L) = (2 \<le> j \<and> j \<le> int (length (pages g)) \<and> returned (workers g j))" for j
    using inv by (simp add: log_inv_def Let_def L_def)
  have fresh: "i \<notin> fst ` set L"
    using mem [of i] w by simp
  have other: "(pages g)[nat (i - 1) := p] ! nat (j - 1) = pages g ! nat (j - 1)"
    if "j \<in> fst ` set L" for j
  proof -
    from that fresh have "j \<noteq> i" by auto
    moreover from that mem [of j] have "2 \<le> j" by simp
    ultimately show ?thesis using i by (simp add: nth_list_update)
  qed
  have self: "(pages g)[nat (i - 1) := p] ! nat (i - 1) = p"
    using i by (simp add: nth_list_update)
  have pg: "pages g' ! nat (j - 1) = p'" if "(j, Inr p') \<in> set (L @ [(i, Inr p)])" for j p'
  proof (cases "(j, Inr p') \<in> set L")
    case True
    then have "j \<in> fst ` set L" by force
    then have "pages g' ! nat (j - 1) = pages g ! nat (j - 1)"
      by (simp add: g' other)
    also have "\<dots> = p'"
      using inv True by (simp add: log_inv_def Let_def L_def)
    finally show ?thesis .
  next
    case False
    with that have "j = i" "p' = p" by auto
    then show ?thesis by (simp add: g' self)
  qed
  have rest: "distinct (map fst (L @ [(i, Inr p)]))"
    "\<And>j. (j \<in> fst ` set (L @ [(i, Inr p)])) =
        (2 \<le> j \<and> j \<le> int (length (pages g')) \<and> returned (workers g' j))"
    using inv fresh i mem by (auto simp: log_inv_def Let_def L_def g')
  have carried:
    "\<And>j. 2 \<le> j \<and> j \<le> int (length (pages g')) \<and> workers g' j = Fetched None \<longrightarrow>
           (\<exists>p'. (j, Inr p') \<in> set (L @ [(i, Inr p)]))"
    "\<And>j. 2 \<le> j \<and> j \<le> int (length (pages g')) \<and> workers g' j = Released None \<longrightarrow>
           (\<exists>p'. (j, Inr p') \<in> set (L @ [(i, Inr p)]))"
    "\<And>j e. 2 \<le> j \<and> j \<le> int (length (pages g')) \<and> workers g' j = Fetched (Some e) \<longrightarrow>
           (j, Inl e) \<in> set (L @ [(i, Inr p)])"
    "\<And>j e. 2 \<le> j \<and> j \<le> int (length (pages g')) \<and> workers g' j = Released (Some e) \<longrightarrow>
           (j, Inl e) \<in> set (L @ [(i, Inr p)])"
    using inv by (auto simp: log_inv_def Let_def L_def g')
  have errs:
    "\<And>j e. (j, Inl e) \<in> set (L @ [(i, Inr p)]) \<and> workers g' j = Done \<longrightarrow> gerr g' \<noteq> None"
    "\<And>e. gerr g' = Some e \<longrightarrow> (\<exists>j. 2 \<le> j \<and> (j, Inl e) \<in> set (L @ [(i, Inr p)]))"
    using inv by (auto simp: log_inv_def Let_def L_def g')
  show ?thesis
    unfolding log_inv_def Let_def L'
    using n rest carried errs pg by (simp add: g')
qed

lemma log_inv_release:
  assumes inv: "log_inv n g" and i: "2 \<le> i" "i \<le> int (length (pages g))"
    and w: "workers g i = Fetched e"
    and g': "calls (gsys g') = calls (gsys g)" "pages g' = pages g"
    "workers g' = (workers g)(i := Released e)" "gerr g' = gerr g"
  shows "log_inv n g'"
proof -
  define L where "L = drop n (calls (gsys g))"
  have L': "drop n (calls (gsys g')) = L"
    by (simp add: g' L_def)
  have rest: "n \<le> length (calls (gsys g'))" "distinct (map fst L)"
    "\<And>j. (j \<in> fst ` set L) =
        (2 \<le> j \<and> j \<le> int (length (pages g')) \<and> returned (workers g' j))"
    "\<And>j p'. (j, Inr p') \<in> set L \<longrightarrow> pages g' ! nat (j - 1) = p'"
    using inv w by (auto simp: log_inv_def Let_def L_def g')
  have carried:
    "\<And>j. 2 \<le> j \<and> j \<le> int (length (pages g')) \<and> workers g' j = Fetched None \<longrightarrow>
           (\<exists>p'. (j, Inr p') \<in> set L)"
    "\<And>j. 2 \<le> j \<and> j \<le> int (length (pages g')) \<and> workers g' j = Released None \<longrightarrow>
           (\<exists>p'. (j, Inr p') \<in> set L)"
    "\<And>j e'. 2 \<le> j \<and> j \<le> int (length (pages g')) \<and> workers g' j = Fetched (Some e') \<longrightarrow>
           (j, Inl e') \<in> set L"
    "\<And>j e'. 2 \<le> j \<and> j \<le> int (length (pages g')) \<and> workers g' j = Released (Some e') \<longrightarrow>
           (j, Inl e') \<in> set L"
    using inv w by (auto simp: log_inv_def Let_def L_def g')
  have errs:
    "\<And>j e'. (j, Inl e') \<in> set L \<and> workers g' j = Done \<longrightarrow> gerr g' \<noteq> None"
    "\<And>e'. gerr g' = Some e' \<longrightarrow> (\<exists>j. 2 \<le> j \<and> (j, Inl e') \<in> set L)"
    using inv w by (auto simp: log_inv_def Let_def L_def g')
  show ?thesis
    unfolding log_inv_def Let_def L'
    using rest carried errs by simp
qed

lemma log_inv_finish:
  assumes inv: "log_inv n g" and i: "2 \<le> i" "i \<le> int (length (pages g))"
    and w: "workers g i = Released e"
    and g': "calls (gsys g') = calls (gsys g)" "pages g' = pages g"
    "workers g' = (workers g)(i := Done)"
    "gerr g' = (case gerr g of None \<Rightarrow> e | Some x \<Rightarrow> Some x)"
  shows "log_inv n g'"
proof -
  define L where "L = drop n (calls (gsys g))"
  have L': "drop n (calls (gsys g')) = L"
    by (simp add: g' L_def)
  have dist: "distinct (map fst L)"
    using inv by (simp add: log_inv_def Let_def L_def)
  have rest: "n \<le> length (calls (gsys g'))"
    "\<And>j. (j \<in> fst ` set L) =
        (2 \<le> j \<and> j \<le> int (length (pages g')) \<and> returned (workers g' j))"
    "\<And>j p'. (j, Inr p') \<in> set L \<longrightarrow> pages g' ! nat (j - 1) = p'"
    using inv w by (auto simp: log_inv_def Let_def L_def g')
  have carried:
    "\<And>j. 2 \<le> j \<and> j \<le> int (length (pages g')) \<and> workers g' j = Fetched None \<longrightarrow>
           (\<exists>p'. (j, Inr p') \<in> set L)"
    "\<And>j. 2 \<le> j \<and> j \<le> int (length (pages g')) \<and> workers g' j = Released None \<longrightarrow>
           (\<exists>p'. (j, Inr p') \<in> set L)"
    "\<And>j e'. 2 \<le> j \<and> j \<le> int (length (pages g')) \<and> workers g' j = Fetched (Some e') \<longrightarrow>
           (j, Inl e') \<in> set L"
    "\<And>j e'. 2 \<le> j \<and> j \<le> int (length (pages g')) \<and> workers g' j = Released (Some e') \<longrightarrow>
           (j, Inl e') \<in> set L"
    using inv w by (auto simp: log_inv_def Let_def L_def g')
  have own: "gerr g' \<noteq> None" if "(i, Inl e') \<in> set L" for e'
  proof (cases e)
    case None
    with inv i w obtain p' where "(i, Inr p') \<in> set L"
      by (auto simp: log_inv_def Let_def L_def)
    with that dist have "Inr p' = (Inl e' :: error + subscriberPage)"
      by (meson eq_key_imp_eq_value)
    then show ?thesis by simp
  next
    case (Some x)
    then show ?thesis by (simp add: g' split: option.splits)
  qed
  have errs1: "(j, Inl e') \<in> set L \<and> workers g' j = Done \<longrightarrow> gerr g' \<noteq> None" for j e'
  proof (cases "j = i")
    case True
    then show ?thesis using own by blast
  next
    case False
    with inv show ?thesis
      by (auto simp: log_inv_def Let_def L_def g' split: option.splits)
  qed
  have errs2: "gerr g' = Some e' \<longrightarrow> (\<exists>j. 2 \<le> j \<and> (j, Inl e') \<in> set L)" for e'
  proof (cases "gerr g")
    case None
    with inv i w show ?thesis
      by (auto simp: log_inv_def Let_def L_def g')
  next
    case (Some x)
    with inv show ?thesis
      by (auto simp: log_inv_def Let_def L_def g')
  qed
  show ?thesis
    unfolding log_inv_def Let_def L'
    using dist rest carried errs1 errs2 by simp
qed

lemma step_log_inv:
  assumes "log_inv n g"
  shows "log_inv n (step lib c q i g)"
proof (cases rule: step_cases [of lib c q i g])
  case idle
  with assms show ?thesis by simp
next
  case acquire
  show ?thesis
    unfolding acquire(6)
    by (rule log_inv_acquire [OF assms acquire(2,3,4)]) simp_all
next
  case (panic pn s')
  show ?thesis
    unfolding panic(6)
    by (rule log_inv_same [OF assms]) (simp_all add: subscriberPage_calls [OF panic(5)])
next
  case (fail err s')
  show ?thesis
    unfolding fail(6)
    by (rule log_inv_fail [OF assms fail(2,3,4), of _ err])
      (simp_all add: subscriberPage_calls [OF fail(5)])
next
  case (ok p s')
  show ?thesis
    unfolding ok(6)
    by (rule log_inv_ok [OF assms ok(2,3,4), of _ p])
      (simp_all add: subscriberPage_calls [OF ok(5)])
next
  case (release e)
  show ?thesis
    unfolding release(6)
    by (rule log_inv_release [OF assms release(2,3,4)]) simp_all
next
  case (finish e)
  show ?thesis
    unfolding finish(5)
    by (rule log_inv_finish [OF assms finish(2,3,4)]) simp_all
qed

lemma run_log_inv: "log_inv n g \<Longrightarrow> log_inv n (run lib c q sched g)"
  by (induction sched arbitrary: g) (simp_all add: step_log_inv)

lemma spawn_log_inv: "log_inv (length (calls s)) (spawn cap p s)"
  by (simp add: log_inv_def spawn_def)

subsection \<open>Runs\<close>

lemma step_calls_ext: "\<exists>ext. calls (gsys (step lib c q i g)) = calls (gsys g) @ ext"
proof (cases rule: step_cases [of lib c q i g])
  case (panic pn s')
  then show ?thesis by (simp add: subscriberPage_calls [OF panic(5)])
next
  case (fail err s')
  then show ?thesis by (simp add: subscriberPage_calls [OF fail(5)])
next
  case (ok p s')
  then show ?thesis by (simp add: subscriberPage_calls [OF ok(5)])
qed simp_all

lemma run_calls_ext: "\<exists>ext. calls (gsys (run lib c q sched g)) = calls (gsys g) @ ext"
proof (induction sched arbitrary: g)
  case Nil
  then show ?case by simp
next
  case (Cons i sched)
  obtain e1 where "calls (gsys (step lib c q i g)) = calls (gsys g) @ e1"
    using step_calls_ext by blast
  moreover obtain e2 where
    "calls (gsys (run lib c q sched (step lib c q i g))) = calls (gsys (step lib c q i g)) @ e2"
    using Cons.IH by blast
  ultimately show ?case by simp
qed

lemma step_first_page: "pages (step lib c q i g) ! 0 = pages g ! 0"
  by (cases rule: step_cases [of lib c q i g]) (simp_all add: nth_list_update)

lemma run_first_page: "pages (run lib c q sched g) ! 0 = pages g ! 0"
  by (induction sched arbitrary: g) (simp_all add: step_first_page)

lemma step_no_crash:
  "HTTPClient (config c) \<noteq> None \<Longrightarrow> crashed g = None \<Longrightarrow> crashed (step lib c q i g) = None"
  by (cases rule: step_cases [of lib c q i g]) (auto dest: subscriberPage_panics)

lemma run_no_crash:
  "HTTPClient (config c) \<noteq> None \<Longrightarrow> crashed g = None \<Longrightarrow> crashed (run lib c q sched g) = None"
  by (induction sched arbitrary: g) (simp_all add: step_no_crash)

lemma Subscribers_append_concat:
  "0 \<le> i \<Longrightarrow> i \<le> tot \<Longrightarrow> tot = int (length pgs) \<Longrightarrow>
   Subscribers_append pgs i tot acc = acc @ concat (map Subscribers (drop (nat i) pgs))"
proof (induction pgs i tot acc rule: Subscribers_append.induct)
  case (1 pgs i tot subscribers)
  show ?case
  proof (cases "i < tot")
    case True
    with 1 have "nat i < length pgs" by simp
    then have d: "drop (nat i) pgs = pgs ! nat i # drop (nat (i + 1)) pgs"
      using 1(2) by (simp add: Cons_nth_drop_Suc nat_add_distrib)
    from True 1 show ?thesis
      by (subst Subscribers_append.simps) (simp add: d)
  next
    case False
    with 1 show ?thesis
      by (subst Subscribers_append.simps) simp
  qed
qed

lemma zip_pages:
  "zip [a..a + int (length ps) - 1] (map f ps) = map (\<lambda>i. (i, f (ps ! nat (i - a)))) [a..a + int (length ps) - 1]"
  by (rule nth_equalityI) (simp_all)

lemma all_done_iff:
  "all_done g = (\<forall>i. 2 \<le> i \<and> i \<le> int (length (pages g)) \<longrightarrow> workers g i = Done)"
  by (auto simp: all_done_def list_all_iff)

lemma done_log:
  assumes inv: "log_inv n g" and fin: "all_done g" and noerr: "gerr g = None"
  shows "mset (drop n (calls (gsys g))) =
         mset (map (\<lambda>i. (i, Inr (pages g ! nat (i - 1)))) [2..int (length (pages g))])"
proof -
  define L where "L = drop n (calls (gsys g))"
  define T where "T = int (length (pages g))"
  have dist: "distinct (map fst L)"
    using inv by (simp add: log_inv_def Let_def L_def)
  have mem: "(j \<in> fst ` set L) = (2 \<le> j \<and> j \<le> T)" for j
    using inv fin by (auto simp: log_inv_def Let_def L_def T_def all_done_iff)
  have ok: "x = Inr (pages g ! nat (j - 1))" if "(j, x) \<in> set L" for j x
  proof (cases x)
    case (Inl err)
    from that have "j \<in> fst ` set L" by force
    with mem fin have "workers g j = Done"
      by (simp add: all_done_iff T_def)
    with that Inl inv noerr show ?thesis
      by (auto simp: log_inv_def Let_def L_def)
  next
    case (Inr p)
    with that inv show ?thesis
      by (auto simp: log_inv_def Let_def L_def)
  qed
  define M :: "(int \<times> (error + subscriberPage)) list"
    where "M = map (\<lambda>i. (i, Inr (pages g ! nat (i - 1)))) [2..T]"
  have s: "set L = set M"
  proof (intro set_eqI iffI)
    fix e assume e: "e \<in> set L"
    obtain j x where jx: "e = (j, x)" by (cases e)
    with e have "j \<in> fst ` set L" by force
    with mem have "2 \<le> j \<and> j \<le> T" by simp
    with ok [of j x] e jx show "e \<in> set M"
      by (auto simp: M_def)
  next
    fix e assume "e \<in> set M"
    then obtain j where j: "2 \<le> j" "j \<le> T" "e = (j, Inr (pages g ! nat (j - 1)))"
      by (auto simp: M_def)
    with mem [of j] obtain x where "(j, x) \<in> set L" by auto
    with ok [of j x] j show "e \<in> set L" by simp
  qed
  have d1: "distinct L"
    using dist by (simp add: distinct_map)
  have d2: "distinct M"
    by (simp add: M_def distinct_map inj_on_def)
  have "mset L = mset M"
    by (rule iffD1 [OF set_eq_iff_mset_eq_distinct [OF d1 d2] s])
  then show ?thesis
    unfolding L_def T_def M_def .
qed

lemma failed_log:
  assumes inv: "log_inv n g" and fin: "all_done g"
    and fail: "(i, Inl e) \<in> set (drop n (calls (gsys g)))"
  shows "\<exists>j e'. 2 \<le> j \<and> (j, Inl e') \<in> set (drop n (calls (gsys g))) \<and> gerr g = Some e'"
proof -
  from fail have "i \<in> fst ` set (drop n (calls (gsys g)))" by force
  with inv fin have "workers g i = Done"
    by (simp add: log_inv_def Let_def all_done_iff)
  with inv fail have "gerr g \<noteq> None"
    by (auto simp: log_inv_def Let_def)
  then obtain e' where "gerr g = Some e'" by auto
  with inv show ?thesis
    by (auto simp: log_inv_def Let_def)
qed

lemma done_pages_fetched:
  assumes inv: "log_inv n g" and fin: "all_done g"
  shows "mset (map fst (drop n (calls (gsys g)))) = mset [2..int (length (pages g))]"
proof -
  have d1: "distinct (map fst (drop n (calls (gsys g))))"
    using inv by (simp add: log_inv_def Let_def)
  have d2: "distinct [2..int (length (pages g))]"
    by simp
  have "(j \<in> fst ` set (drop n (calls (gsys g)))) = (2 \<le> j \<and> j \<le> int (length (pages g)))"
    for j
    using inv fin by (auto simp: log_inv_def Let_def all_done_iff)
  then have s: "set (map fst (drop n (calls (gsys g)))) = set [2..int (length (pages g))]"
    by (intro set_eqI) simp
  show ?thesis
    by (rule iffD1 [OF set_eq_iff_mset_eq_distinct [OF d1 d2] s])
qed

subsection \<open>All pages\<close>

lemma spawn_pages:
  "1 < TotalPages p \<Longrightarrow> int (length (pages (spawn cap p s))) = TotalPages p"
  "1 < TotalPages p \<Longrightarrow> pages (spawn cap p s) ! 0 = p"
  by (simp_all add: spawn_def)

lemma Subscribers_cases [case_names panic fail single makechan group]:
  obtains
    pn s1 where "Client_subscriberPage lib c 1 query s = (Panics pn, s1)"
      "Client_Subscribers lib c query sched s = (Some (Panics pn), s1)"
  | err s1 where "Client_subscriberPage lib c 1 query s = (Returns (Inl err), s1)"
      "Client_Subscribers lib c query sched s =
         (Some (Returns ([], Some err)), s1\<lparr>calls := calls s @ [(1, Inl err)]\<rparr>)"
  | p s1 where "Client_subscriberPage lib c 1 query s = (Returns (Inr p), s1)"
      "TotalPages p \<le> 1"
      "Client_Subscribers lib c query sched s =
         (Some (Returns (Subscribers p, None)), s1\<lparr>calls := calls s @ [(1, Inr p)]\<rparr>)"
  | p s1 where "Client_subscriberPage lib c 1 query s = (Returns (Inr p), s1)"
      "1 < TotalPages p" "ConcurrentRequests (config c) < 0"
      "Client_Subscribers lib c query sched s =
         (Some (Panics MakechanSizeOutOfRange), s1\<lparr>calls := calls s @ [(1, Inr p)]\<rparr>)"
  | p s1 g where "Client_subscriberPage lib c 1 query s = (Returns (Inr p), s1)"
      "1 < TotalPages p" "0 \<le> ConcurrentRequests (config c)"
      "g = run lib c query sched
             (spawn (nat (ConcurrentRequests (config c))) p (s1\<lparr>calls := calls s @ [(1, Inr p)]\<rparr>))"
      "Client_Subscribers lib c query sched s =
         (case crashed g of
            Some pn \<Rightarrow> (Some (Panics pn), gsys g)
          | None \<Rightarrow>
              if \<not> all_done g then (None, gsys g)
              else (case gerr g of
                      Some err \<Rightarrow> (Some (Returns ([], Some err)), gsys g)
                    | None \<Rightarrow>
                        (Some (Returns (Subscribers_append (pages g) 0 (TotalPages p) [], None)),
                         gsys g)))"
proof -
  obtain r s1 where p1: "Client_subscriberPage lib c 1 query s = (r, s1)"
    by (cases "Client_subscriberPage lib c 1 query s")
  note c1 = subscriberPage_calls [OF p1]
  show ?thesis
  proof (cases r)
    case (Panics pn)
    with p1 show ?thesis
      by (intro that(1) [of pn s1]) (simp_all add: Client_Subscribers_def record_call_def)
  next
    case (Returns res)
    show ?thesis
    proof (cases res)
      case (Inl err)
      with Returns p1 c1 show ?thesis
        by (intro that(2) [of err s1]) (simp_all add: Client_Subscribers_def record_call_def)
    next
      case (Inr p)
      show ?thesis
      proof (cases "TotalPages p \<le> 1")
        case True
        with Inr Returns p1 c1 show ?thesis
          by (intro that(3) [of p s1]) (simp_all add: Client_Subscribers_def record_call_def)
      next
        case False
        show ?thesis
        proof (cases "ConcurrentRequests (config c) < 0")
          case True
          with False Inr Returns p1 c1 show ?thesis
            by (intro that(4) [of p s1]) (simp_all add: Client_Subscribers_def record_call_def)
        next
          case nonneg: False
          with False Inr Returns p1 c1 show ?thesis
            by (intro that(5) [of p s1]) 
              (simp_all add: Client_Subscribers_def record_call_def Let_def)
        qed
      qed
    qed
  qed
qed

lemma spawn_gsys [simp]: "gsys (spawn cap p s) = s"
  by (simp add: spawn_def)

lemma zip_pages_from_one:
  "zip [1..int (length ps)] (map f ps) = map (\<lambda>i. (i, f (ps ! nat (i - 1)))) [1..int (length ps)]"
  using zip_pages [of 1 ps f] by simp

lemma Subscribers_group:
  assumes "Client_subscriberPage lib c 1 query s = (Returns (Inr p), s1)"
    "1 < TotalPages p" "0 \<le> ConcurrentRequests (config c)"
    "g = run lib c query sched
           (spawn (nat (ConcurrentRequests (config c))) p (s1\<lparr>calls := calls s @ [(1, Inr p)]\<rparr>))"
  shows "Client_Subscribers lib c query sched s =
         (case crashed g of
            Some pn \<Rightarrow> (Some (Panics pn), gsys g)
          | None \<Rightarrow>
              if \<not> all_done g then (None, gsys g)
              else (case gerr g of
                      Some err \<Rightarrow> (Some (Returns ([], Some err)), gsys g)
                    | None \<Rightarrow>
                        (Some (Returns (Subscribers_append (pages g) 0 (TotalPages p) [], None)),
                         gsys g)))"
  unfolding assms(4)
  using assms(1,2,3) subscriberPage_calls [OF assms(1)]
  by (simp add: Client_Subscribers_def record_call_def Let_def)

subsection \<open>Every run can be completed\<close>

lemma step_Queued:
  assumes "crashed g = None" "2 \<le> i" "i \<le> int (length (pages g))" "workers g i = Queued"
    "limiter g < capacity g"
  shows "workers (step lib c q i g) = (workers g)(i := Admitted)"
  using assms by (simp add: step_def)

lemma step_Admitted:
  assumes "crashed g = None" "2 \<le> i" "i \<le> int (length (pages g))" "workers g i = Admitted"
    "HTTPClient (config c) \<noteq> None"
  shows "\<exists>e. workers (step lib c q i g) = (workers g)(i := Fetched e)"
proof (cases rule: step_cases [of lib c q i g])
  case idle
  obtain r s' where rs: "Client_subscriberPage lib c i q (gsys g) = (r, s')"
    by (cases "Client_subscriberPage lib c i q (gsys g)")
  with assms subscriberPage_panics [of lib c i q "gsys g" _ s'] show ?thesis
    by (cases r) (auto simp: step_def record_call_def split: sum.splits)
next
  case (panic pn s')
  with assms subscriberPage_panics [OF panic(5)] show ?thesis by simp
qed (use assms in auto)

lemma step_Fetched:
  assumes "crashed g = None" "2 \<le> i" "i \<le> int (length (pages g))" "workers g i = Fetched e"
    "0 < limiter g"
  shows "workers (step lib c q i g) = (workers g)(i := Released e)"
  using assms by (simp add: step_def)

lemma step_Released:
  assumes "crashed g = None" "2 \<le> i" "i \<le> int (length (pages g))" "workers g i = Released e"
  shows "workers (step lib c q i g) = (workers g)(i := Done)"
  using assms by (simp add: step_def)

lemma rank_step:
  assumes "2 \<le> i" "i \<le> int (length (pages g))" 
    "workers (step lib c q i g) = (workers g)(i := v)" "rank v < rank (workers g i)"
  shows "tally rank (step lib c q i g) < tally rank g"
  using tally_update [of i g "step lib c q i g" v rank] assms by simp

lemma advance:
  assumes inv: "slots_inv g" and live: "crashed g = None" and cap: "0 < capacity g"
    and http: "HTTPClient (config c) \<noteq> None" and more: "\<not> all_done g"
  shows "\<exists>i. tally rank (step lib c q i g) < tally rank g"
proof (cases "\<exists>j. 2 \<le> j \<and> j \<le> int (length (pages g)) \<and> workers g j \<noteq> Queued \<and> workers g j \<noteq> Done")
  case True
  then obtain j where j: "2 \<le> j" "j \<le> int (length (pages g))"
    "workers g j \<noteq> Queued" "workers g j \<noteq> Done"
    by blast
  show ?thesis
  proof (cases "workers g j")
    case Admitted
    from step_Admitted [OF live j(1,2) Admitted http, of lib q] obtain e
      where w: "workers (step lib c q j g) = (workers g)(j := Fetched e)"
      by blast
    have "tally rank (step lib c q j g) < tally rank g"
      by (rule rank_step [OF j(1,2) w]) (simp add: Admitted)
    then show ?thesis ..
  next
    case (Fetched e)
    with j have "0 < holders g"
      by (intro holders_pos [of j]) simp_all
    with inv have "0 < limiter g"
      by (simp add: slots_inv_def)
    note w = step_Fetched [OF live j(1,2) Fetched this, of lib c q]
    have "tally rank (step lib c q j g) < tally rank g"
      by (rule rank_step [OF j(1,2) w]) (simp add: Fetched)
    then show ?thesis ..
  next
    case (Released e)
    note w = step_Released [OF live j(1,2) Released, of lib c q]
    have "tally rank (step lib c q j g) < tally rank g"
      by (rule rank_step [OF j(1,2) w]) (simp add: Released)
    then show ?thesis ..
  qed (use j in simp_all)
next
  case False
  from more obtain i where i: "2 \<le> i" "i \<le> int (length (pages g))" "workers g i \<noteq> Done"
    by (auto simp: all_done_iff)
  with False have queued: "workers g i = Queued" by blast
  have "holders g = 0"
  proof (rule holders_zero)
    fix k assume "2 \<le> k" "k \<le> int (length (pages g))"
    with False have "workers g k = Queued \<or> workers g k = Done" by blast
    then show "\<not> holding (workers g k)" by auto
  qed
  with inv cap have "limiter g < capacity g"
    by (simp add: slots_inv_def)
  note w = step_Queued [OF live i(1,2) queued this, of lib c q]
  have "tally rank (step lib c q i g) < tally rank g"
    by (rule rank_step [OF i(1,2) w]) (simp add: queued)
  then show ?thesis ..
qed

lemma completion:
  assumes "slots_inv g" "crashed g = None" "0 < capacity g" "HTTPClient (config c) \<noteq> None"
  shows "\<exists>more. all_done (run lib c q more g) \<and> crashed (run lib c q more g) = None"
  using assms
proof (induction "tally rank g" arbitrary: g rule: less_induct)
  case less
  show ?case
  proof (cases "all_done g")
    case True
    with less.prems show ?thesis
      by (intro exI [of _ "[]"]) simp
  next
    case False
    with less.prems obtain i where i: "tally rank (step lib c q i g) < tally rank g"
      using advance [of g c lib q] by blast
    have "\<exists>more. all_done (run lib c q more (step lib c q i g)) \<and>
                 crashed (run lib c q more (step lib c q i g)) = None"
      using less.prems by (intro less.hyps [OF i]) (simp_all add: step_slots_inv step_no_crash)
    then obtain more where "all_done (run lib c q more (step lib c q i g))"
      "crashed (run lib c q more (step lib c q i g)) = None"
      by blast
    then show ?thesis
      by (intro exI [of _ "i # more"]) simp
  qed
qed

text \<open>
  With \<^verbatim>\<open>ConcurrentRequests\<close> 0 the channel is unbuffered, no goroutine gets past its send, and
  \<^verbatim>\<open>Subscribers\<close> does not return once page 1 has reported more than one page.
  \<^verbatim>\<open>NewClient\<close> replaces 0 by the default 8.
\<close>

lemma blocked_run:
  assumes "capacity g = 0" "limiter g = 0" "\<forall>i. workers g i = Queued"
  shows "run lib c q sched g = g"
  using assms
proof (induction sched)
  case Nil
  then show ?case by simp
next
  case (Cons i sched)
  then have "step lib c q i g = g"
    by (simp add: step_def)
  with Cons show ?case by simp
qed

lemma zero_capacity_never_returns:
  assumes "Client_subscriberPage lib c 1 query s = (Returns (Inr p), s1)"
    and "1 < TotalPages p" and "ConcurrentRequests (config c) = 0"
  shows "fst (Client_Subscribers lib c query sched s) = None"
proof -
  define g0 :: "'a group"
    where "g0 = spawn (nat (ConcurrentRequests (config c))) p (s1\<lparr>calls := calls s @ [(1, Inr p)]\<rparr>)"
  have blocked: "run lib c query sched g0 = g0"
    using assms(3) by (intro blocked_run) (simp_all add: g0_def spawn_def)
  have "int (length (pages g0)) = TotalPages p"
    unfolding g0_def by (rule spawn_pages(1) [OF assms(2)])
  with assms(2) have waiting: "\<not> all_done g0"
    by (auto simp: all_done_iff g0_def spawn_def intro!: exI [of _ 2])
  have live: "crashed g0 = None"
    by (simp add: g0_def spawn_def)
  have "0 \<le> ConcurrentRequests (config c)"
    using assms(3) by simp
  from Subscribers_group [OF assms(1,2) this refl, of sched]
  show ?thesis
    using blocked waiting live by (simp add: g0_def)
qed

lemma NewClient_ConcurrentRequests:
  "ConcurrentRequests (config (fst (NewClient lib c0))) \<noteq> 0"
  by (simp add: NewClient_def DefaultConfig_def Let_def)

subsection \<open>Fetching all pages\<close>

text \<open>
  C2. If the fetch of page 1 fails, \<^verbatim>\<open>Subscribers\<close> returns that error with no
  subscribers, whatever the schedule; the state is the one the fetch of page 1 left, and
  the only call of \<^verbatim>\<open>subscriberPage\<close> recorded is the one for page 1: none for pages 2..T.
\<close>

theorem first_page_failure:
  assumes "Client_subscriberPage lib c 1 query s = (Returns (Inl err), s1)"
  shows "Client_Subscribers lib c query sched s =
           (Some (Returns ([], Some err)), s1\<lparr>calls := calls s @ [(1, Inl err)]\<rparr>)"
  using assms subscriberPage_calls [OF assms]
  by (simp add: Client_Subscribers_def record_call_def)

theorem first_page_failure_witness:
  "Client_subscriberPage example_lib (example_client ''https://down'' ''k'' ''s'' 2) 1 None
       example_sys =
     (Returns (Inl example_401),
      \<lparr>world = 1, sent = [example_get ''https://down'' ''1''], calls = []\<rparr>) \<and>
   Client_Subscribers example_lib (example_client ''https://down'' ''k'' ''s'' 2) None [2, 3]
       example_sys =
     (Some (Returns ([], Some example_401)),
      \<lparr>world = 1, sent = [example_get ''https://down'' ''1''],
       calls = [(1, Inl example_401)]\<rparr>)"
proof -
  have h: "Client_subscriberPage example_lib (example_client ''https://down'' ''k'' ''s'' 2) 1 None
       example_sys =
     (Returns (Inl example_401),
      \<lparr>world = 1, sent = [example_get ''https://down'' ''1''], calls = []\<rparr>)"
    by code_simp
  show ?thesis
    using h first_page_failure [OF h, of "[2, 3]"] by (simp add: example_sys_def)
qed

text \<open>
  C3. If page 1 reports at most one page, \<^verbatim>\<open>Subscribers\<close> returns the subscribers of
  page 1 as they are, whatever the schedule; the state is the one the fetch of page 1
  left, and the only call of \<^verbatim>\<open>subscriberPage\<close> recorded is the one for page 1.
\<close>

theorem single_page:
  assumes "Client_subscriberPage lib c 1 query s = (Returns (Inr p), s1)"
    and "TotalPages p \<le> 1"
  shows "Client_Subscribers lib c query sched s =
           (Some (Returns (Subscribers p, None)), s1\<lparr>calls := calls s @ [(1, Inr p)]\<rparr>)"
  using assms subscriberPage_calls [OF assms(1)]
  by (simp add: Client_Subscribers_def record_call_def)

theorem single_page_witness:
  "Client_subscriberPage example_lib (example_client ''https://solo'' ''k'' ''s'' 2) 1 None
       example_sys =
     (Returns (Inr example_solo),
      \<lparr>world = 1, sent = [example_get ''https://solo'' ''1''], calls = []\<rparr>) \<and>
   TotalPages example_solo \<le> 1 \<and>
   Client_Subscribers example_lib (example_client ''https://solo'' ''k'' ''s'' 2) None [2, 3]
       example_sys =
     (Some (Returns ([example_subscriber 9 ''z@ck''], None)),
      \<lparr>world = 1, sent = [example_get ''https://solo'' ''1''],
       calls = [(1, Inr example_solo)]\<rparr>)"
proof -
  have h: "Client_subscriberPage example_lib (example_client ''https://solo'' ''k'' ''s'' 2) 1 None
       example_sys =
     (Returns (Inr example_solo),
      \<lparr>world = 1, sent = [example_get ''https://solo'' ''1''], calls = []\<rparr>)"
    by code_simp
  have t: "TotalPages example_solo \<le> 1"
    by (simp add: example_solo_def)
  show ?thesis
    using h t single_page [OF h t, of "[2, 3]"] by (simp add: example_sys_def example_solo_def)
qed

text \<open>
  C1. Whenever \<^verbatim>\<open>Subscribers\<close> returns without error, under whatever schedule of its
  goroutines, there are pages \<open>ps\<close>, as many as page 1 reports (one when it reports fewer),
  such that the calls of \<^verbatim>\<open>subscriberPage\<close> recorded during the run are, in some order
  that starts with page 1, exactly one successful call for each page number \<open>i\<close> from 1 to
  the number of pages, returning the \<open>i\<close>-th of \<open>ps\<close>, and the result is the subscribers of
  \<open>ps\<close> concatenated in the order of the page numbers.
\<close>

theorem Subscribers_in_page_order:
  assumes "Client_Subscribers lib c query sched s = (Some (Returns (xs, None)), s')"
  shows "\<exists>ps log. ps \<noteq> [] \<and> int (length ps) = max 1 (TotalPages (hd ps)) \<and>
           calls s' = calls s @ log \<and> hd log = (1, Inr (hd ps)) \<and>
           mset log = mset (zip [1..int (length ps)] (map Inr ps)) \<and>
           xs = concat (map Subscribers ps)"
proof (cases rule: Subscribers_cases [of lib c query s sched])
  case (panic pn s1)
  with assms show ?thesis by simp
next
  case (fail err s1)
  with assms show ?thesis by simp
next
  case (single p s1)
  with assms have "xs = Subscribers p" "calls s' = calls s @ [(1, Inr p)]"
    by auto
  with single(2) show ?thesis
    by (intro exI [of _ "[p]"] exI [of _ "[(1, Inr p)]"]) (simp add: upto.simps)
next
  case (makechan p s1)
  with assms show ?thesis by simp
next
  case (group p s1 g)
  define s1' where "s1' = s1\<lparr>calls := calls s @ [(1, Inr p)]\<rparr>"
  define n where "n = length (calls s1')"
  define T where "T = int (length (pages g))"
  define f :: "int \<Rightarrow> int \<times> (error + subscriberPage)"
    where "f = (\<lambda>i. (i, Inr (pages g ! nat (i - 1))))"
  from assms group(5) have res: "crashed g = None" "all_done g" "gerr g = None"
    "xs = Subscribers_append (pages g) 0 (TotalPages p) []" "s' = gsys g"
    by (auto split: option.splits if_splits)
  have g: "g = run lib c query sched (spawn (nat (ConcurrentRequests (config c))) p s1')"
    using group(4) by (simp add: s1'_def)
  have len: "T = TotalPages p"
    unfolding T_def g using spawn_pages(1) [OF group(2)] by simp
  have first: "pages g ! 0 = p"
    unfolding g using spawn_pages(2) [OF group(2)] by (simp add: run_first_page)
  have ne: "pages g \<noteq> []"
    using len group(2) by (auto simp: T_def)
  have hd: "hd (pages g) = p"
    using ne first by (simp add: hd_conv_nth)
  have inv: "log_inv n g"
    unfolding g n_def by (intro run_log_inv spawn_log_inv)
  obtain ext where ext: "calls (gsys g) = calls s1' @ ext"
    unfolding g using run_calls_ext [of lib c query sched] by (metis spawn_gsys)
  then have d: "drop n (calls (gsys g)) = ext"
    by (simp add: n_def)
  have m: "mset ext = mset (map f [2..T])"
    using done_log [OF inv res(2,3)] by (simp add: d f_def T_def)
  have up: "[1..T] = 1 # [2..T]"
    using len group(2) by (simp add: upto_rec1)
  have "mset ((1, Inr p) # ext) = mset (map f [1..T])"
    using m first by (simp add: up f_def)
  also have "map f [1..T] = zip [1..int (length (pages g))] (map Inr (pages g))"
    by (simp add: zip_pages_from_one f_def T_def)
  finally have ms: "mset ((1, Inr p) # ext) = mset (zip [1..int (length (pages g))] (map Inr (pages g)))" .
  have cat: "xs = concat (map Subscribers (pages g))"
    using Subscribers_append_concat [of 0 "TotalPages p" "pages g" "[]"] len group(2) res(4)
    by (simp add: T_def)
  have cs: "calls s' = calls s @ (1, Inr p) # ext"
    using ext res(5) by (simp add: s1'_def)
  show ?thesis
    using ne len group(2) cs ms cat hd
    by (intro exI [of _ "pages g"] exI [of _ "(1, Inr p) # ext"]) (simp add: T_def)
qed

theorem Subscribers_in_page_order_witness:
  "Client_Subscribers example_lib (example_client ''https://ck'' ''k'' ''s'' 2) None
       [3, 3, 2, 2, 3, 3, 2, 2] example_sys =
     (Some (Returns ([example_subscriber 1 ''a@ck'', example_subscriber 2 ''b@ck'',
                      example_subscriber 3 ''c@ck'', example_subscriber 4 ''d@ck''], None)),
      \<lparr>world = 3,
       sent = [example_get ''https://ck'' ''1'', example_get ''https://ck'' ''3'',
               example_get ''https://ck'' ''2''],
       calls = [(1, Inr (example_page 1)), (3, Inr (example_page 3)),
                (2, Inr (example_page 2))]\<rparr>) \<and>
   (\<exists>ps log. ps \<noteq> [] \<and> int (length ps) = max 1 (TotalPages (hd ps)) \<and>
      calls \<lparr>world = 3 :: nat,
             sent = [example_get ''https://ck'' ''1'', example_get ''https://ck'' ''3'',
                     example_get ''https://ck'' ''2''],
             calls = [(1, Inr (example_page 1)), (3, Inr (example_page 3)),
                      (2, Inr (example_page 2))]\<rparr> = calls example_sys @ log \<and>
      hd log = (1, Inr (hd ps)) \<and>
      mset log = mset (zip [1..int (length ps)] (map Inr ps)) \<and>
      [example_subscriber 1 ''a@ck'', example_subscriber 2 ''b@ck'',
       example_subscriber 3 ''c@ck'', example_subscriber 4 ''d@ck''] =
        concat (map Subscribers ps))"
proof -
  have h: "Client_Subscribers example_lib (example_client ''https://ck'' ''k'' ''s'' 2) None
       [3, 3, 2, 2, 3, 3, 2, 2] example_sys =
     (Some (Returns ([example_subscriber 1 ''a@ck'', example_subscriber 2 ''b@ck'',
                      example_subscriber 3 ''c@ck'', example_subscriber 4 ''d@ck''], None)),
      \<lparr>world = 3,
       sent = [example_get ''https://ck'' ''1'', example_get ''https://ck'' ''3'',
               example_get ''https://ck'' ''2''],
       calls = [(1, Inr (example_page 1)), (3, Inr (example_page 3)),
                (2, Inr (example_page 2))]\<rparr>)"
    by code_simp
  from h Subscribers_in_page_order [OF h] show ?thesis
    by (rule conjI)
qed

text \<open>
  C4. In every state the goroutines of \<^verbatim>\<open>Subscribers\<close> can reach, under whatever
  schedule, the number of calls of \<^verbatim>\<open>subscriberPage\<close> in progress is at most the configured
  \<^verbatim>\<open>ConcurrentRequests\<close>; and once a goroutine whose call has returned gives its slot
  back, a goroutine that was waiting for a slot is admitted at its next step.
\<close>

theorem concurrency_limit:
  assumes "0 \<le> ConcurrentRequests (config c)"
    and "g = run lib c query sched (spawn (nat (ConcurrentRequests (config c))) p s)"
  shows "int (outstanding g) \<le> ConcurrentRequests (config c) \<and>
         (\<forall>i j e. crashed g = None \<and> 2 \<le> i \<and> i \<le> int (length (pages g)) \<and>
                  2 \<le> j \<and> j \<le> int (length (pages g)) \<and>
                  workers g i = Fetched e \<and> workers g j = Queued \<longrightarrow>
                  workers (step lib c query j (step lib c query i g)) j = Admitted)"
proof -
  have inv: "slots_inv g"
    unfolding assms(2) by (intro run_slots_inv spawn_slots_inv)
  have cap: "capacity g = nat (ConcurrentRequests (config c))"
    unfolding assms(2) by (simp add: spawn_def)
  have "outstanding g \<le> holders g"
    by (rule outstanding_le_holders)
  also have "holders g \<le> capacity g"
    using inv by (simp add: slots_inv_def)
  finally have bound: "int (outstanding g) \<le> ConcurrentRequests (config c)"
    using cap assms(1) by simp
  have next_in: "workers (step lib c query j (step lib c query i g)) j = Admitted"
    if "crashed g = None" "2 \<le> i" "i \<le> int (length (pages g))"
      "2 \<le> j" "j \<le> int (length (pages g))" "workers g i = Fetched e" "workers g j = Queued"
    for i j e
  proof -
    from that have "0 < holders g"
      by (intro holders_pos [of i]) simp_all
    with inv have l: "0 < limiter g" "limiter g \<le> capacity g"
      by (simp_all add: slots_inv_def)
    with that have "step lib c query i g =
        g\<lparr>limiter := limiter g - 1, workers := (workers g)(i := Released e)\<rparr>"
      by (simp add: step_def)
    moreover from that have "i \<noteq> j" by auto
    ultimately show ?thesis
      using that l by (simp add: step_def)
  qed
  from bound next_in show ?thesis by blast
qed

theorem concurrency_limit_witness:
  "0 \<le> ConcurrentRequests (config (example_client ''https://ck'' ''k'' ''s'' 1)) \<and>
   outstanding (run example_lib (example_client ''https://ck'' ''k'' ''s'' 1) None [2, 3]
     (spawn (nat (ConcurrentRequests (config (example_client ''https://ck'' ''k'' ''s'' 1))))
        (example_page 1) example_sys)) = 1 \<and>
   int (outstanding (run example_lib (example_client ''https://ck'' ''k'' ''s'' 1) None [2, 3]
     (spawn (nat (ConcurrentRequests (config (example_client ''https://ck'' ''k'' ''s'' 1))))
        (example_page 1) example_sys)))
     \<le> ConcurrentRequests (config (example_client ''https://ck'' ''k'' ''s'' 1)) \<and>
   workers (run example_lib (example_client ''https://ck'' ''k'' ''s'' 1) None [2, 3, 2]
     (spawn (nat (ConcurrentRequests (config (example_client ''https://ck'' ''k'' ''s'' 1))))
        (example_page 1) example_sys)) 2 = Fetched None \<and>
   workers (run example_lib (example_client ''https://ck'' ''k'' ''s'' 1) None [2, 3, 2]
     (spawn (nat (ConcurrentRequests (config (example_client ''https://ck'' ''k'' ''s'' 1))))
        (example_page 1) example_sys)) 3 = Queued \<and>
   workers (step example_lib (example_client ''https://ck'' ''k'' ''s'' 1) None 3
     (step example_lib (example_client ''https://ck'' ''k'' ''s'' 1) None 2
       (run example_lib (example_client ''https://ck'' ''k'' ''s'' 1) None [2, 3, 2]
         (spawn (nat (ConcurrentRequests (config (example_client ''https://ck'' ''k'' ''s'' 1))))
            (example_page 1) example_sys)))) 3 = Admitted"
proof -
  define c where "c = example_client ''https://ck'' ''k'' ''s'' 1"
  define g0 where "g0 = spawn (nat (ConcurrentRequests (config c))) (example_page 1) example_sys"
  define g1 where "g1 = run example_lib c None [2, 3] g0"
  define g2 where "g2 = run example_lib c None [2, 3, 2] g0"
  have h: "0 \<le> ConcurrentRequests (config c)"
    unfolding c_def by code_simp
  have o: "outstanding g1 = 1"
    unfolding g1_def g0_def c_def by code_simp
  have w: "crashed g2 = None" "int (length (pages g2)) = 3"
    "workers g2 2 = Fetched None" "workers g2 3 = Queued"
    unfolding g2_def g0_def c_def by code_simp+
  have b: "int (outstanding g1) \<le> ConcurrentRequests (config c)"
    using concurrency_limit [OF h, of g1 example_lib None "[2, 3]" "example_page 1" example_sys]
    by (simp add: g1_def g0_def)
  have "workers (step example_lib c None 3 (step example_lib c None 2 g2)) 3 = Admitted"
    using concurrency_limit [OF h, of g2 example_lib None "[2, 3, 2]" "example_page 1" example_sys] w
    by (simp add: g2_def g0_def)
  with h o b w show ?thesis
    unfolding g1_def g2_def g0_def c_def by simp
qed

text \<open>
  C5. Suppose that, in a run of \<^verbatim>\<open>Subscribers\<close> (finished or not), the call of
  \<^verbatim>\<open>subscriberPage\<close> for some page from 2 on has returned an error. Then the run can be
  continued until \<^verbatim>\<open>Subscribers\<close> returns; and however it is continued, when
  \<^verbatim>\<open>Subscribers\<close> returns it returns no subscribers and an error, which is the error of a
  failed call for a page from 2 on, and by then the call for every page from 1 to the
  number of pages has returned, once each.
\<close>

theorem later_page_failure:
  assumes run: "Client_Subscribers lib c query sched s = (out, s')"
    and failed: "(i, Inl e) \<in> set (drop (length (calls s)) (calls s'))" and i: "2 \<le> i"
  shows "(\<exists>more r s''. Client_Subscribers lib c query (sched @ more) s = (Some (Returns r), s'')) \<and>
         (\<forall>more r s''.
            Client_Subscribers lib c query (sched @ more) s = (Some (Returns r), s'') \<longrightarrow>
            fst r = [] \<and>
            (\<exists>j e'. 2 \<le> j \<and> (j, Inl e') \<in> set (drop (length (calls s)) (calls s'')) \<and>
                    snd r = Some e') \<and>
            (\<exists>p. hd (drop (length (calls s)) (calls s'')) = (1, Inr p) \<and>
                 mset (map fst (drop (length (calls s)) (calls s''))) = mset [1..TotalPages p]))"
proof (cases rule: Subscribers_cases [of lib c query s sched])
  case (panic pn s1)
  with run failed subscriberPage_calls [OF panic(1)] show ?thesis by simp
next
  case (fail err s1)
  with run failed i show ?thesis by auto
next
  case (single p s1)
  with run failed show ?thesis by auto
next
  case (makechan p s1)
  with run failed show ?thesis by auto
next
  case (group p s1 g)
  define s1' where "s1' = s1\<lparr>calls := calls s @ [(1, Inr p)]\<rparr>"
  define g0 where "g0 = spawn (nat (ConcurrentRequests (config c))) p s1'"
  define n where "n = length (calls s1')"
  have g: "g = run lib c query sched g0"
    using group(4) by (simp add: g0_def s1'_def)
  have n: "n = Suc (length (calls s))"
    by (simp add: n_def s1'_def)
  have http: "HTTPClient (config c) \<noteq> None"
    using group(1) by (rule subscriberPage_ok)
  have T: "int (length (pages g0)) = TotalPages p"
    unfolding g0_def by (rule spawn_pages(1) [OF group(2)])
  have inv0: "log_inv n g0" "slots_inv g0" "crashed g0 = None" "gsys g0 = s1'"
    unfolding g0_def n_def by (simp_all add: spawn_log_inv spawn_slots_inv) (simp add: spawn_def)
  have sub: "Client_Subscribers lib c query sch s =
         (case crashed (run lib c query sch g0) of
            Some pn \<Rightarrow> (Some (Panics pn), gsys (run lib c query sch g0))
          | None \<Rightarrow>
              if \<not> all_done (run lib c query sch g0) then (None, gsys (run lib c query sch g0))
              else (case gerr (run lib c query sch g0) of
                      Some err \<Rightarrow> (Some (Returns ([], Some err)), gsys (run lib c query sch g0))
                    | None \<Rightarrow>
                        (Some (Returns (Subscribers_append (pages (run lib c query sch g0)) 0
                           (TotalPages p) [], None)),
                         gsys (run lib c query sch g0))))" for sch
    by (rule Subscribers_group [OF group(1,2,3)]) (simp add: g0_def s1'_def)
  have full: "drop (length (calls s)) (calls (gsys (run lib c query sch g0))) =
        (1, Inr p) # drop n (calls (gsys (run lib c query sch g0)))" for sch
  proof -
    obtain ext where "calls (gsys (run lib c query sch g0)) = calls (gsys g0) @ ext"
      using run_calls_ext by blast
    then show ?thesis
      by (simp add: inv0(4) n s1'_def)
  qed
  have s': "s' = gsys g"
    using run sub [of sched] by (auto simp: g split: option.splits if_splits)
  have in_log: "(i, Inl e) \<in> set (drop n (calls (gsys g)))"
    using failed full [of sched] by (simp add: s' g)
  have inv: "log_inv n g" "slots_inv g" "crashed g = None"
    unfolding g using inv0 http by (simp_all add: run_log_inv run_slots_inv run_no_crash)
  from in_log have "i \<in> fst ` set (drop n (calls (gsys g)))" by force
  with inv(1) have "i \<le> int (length (pages g))" "returned (workers g i)"
    by (simp_all add: log_inv_def Let_def)
  then have "workers g i \<noteq> Queued" by auto
  with inv(2) i \<open>i \<le> int (length (pages g))\<close> have cap: "0 < capacity g"
    unfolding slots_inv_def by blast
  have ex: "\<exists>more r s''. Client_Subscribers lib c query (sched @ more) s = (Some (Returns r), s'')"
  proof -
    from completion [OF inv(2,3) cap http, of lib query] obtain more
      where "all_done (run lib c query more g)" "crashed (run lib c query more g) = None"
      by blast
    then have "\<exists>r s''. Client_Subscribers lib c query (sched @ more) s = (Some (Returns r), s'')"
      unfolding sub [of "sched @ more"] by (simp add: run_append g split: option.splits)
    then show ?thesis ..
  qed
  have all: "fst r = [] \<and>
      (\<exists>j e'. 2 \<le> j \<and> (j, Inl e') \<in> set (drop (length (calls s)) (calls s'')) \<and> snd r = Some e') \<and>
      (\<exists>p. hd (drop (length (calls s)) (calls s'')) = (1, Inr p) \<and>
           mset (map fst (drop (length (calls s)) (calls s''))) = mset [1..TotalPages p])"
    if ret: "Client_Subscribers lib c query (sched @ more) s = (Some (Returns r), s'')"
    for more r s''
  proof -
    define g2 where "g2 = run lib c query more g"
    have g2: "run lib c query (sched @ more) g0 = g2"
      by (simp add: g2_def g run_append)
    from ret have fin: "all_done g2" and s'': "s'' = gsys g2"
      and r: "r = (case gerr g2 of Some err \<Rightarrow> ([], Some err)
                   | None \<Rightarrow> (Subscribers_append (pages g2) 0 (TotalPages p) [], None))"
      unfolding sub [of "sched @ more"] g2
      by (auto split: option.splits if_splits)
    have inv2: "log_inv n g2"
      unfolding g2_def using inv(1) by (rule run_log_inv)
    obtain ext where "calls (gsys g2) = calls (gsys g) @ ext"
      unfolding g2_def using run_calls_ext by blast
    with in_log have "(i, Inl e) \<in> set (drop n (calls (gsys g2)))"
      using inv(1) by (auto simp: log_inv_def Let_def)
    from failed_log [OF inv2 fin this] obtain j e'
      where j: "2 \<le> j" "(j, Inl e') \<in> set (drop n (calls (gsys g2)))" "gerr g2 = Some e'"
      by blast
    have f2: "drop (length (calls s)) (calls s'') = (1, Inr p) # drop n (calls (gsys g2))"
      using full [of "sched @ more"] by (simp add: g2 s'')
    have len: "int (length (pages g2)) = TotalPages p"
      using T by (simp add: g2_def g)
    have "mset (map fst (drop n (calls (gsys g2)))) = mset [2..TotalPages p]"
      using done_pages_fetched [OF inv2 fin] by (simp add: len)
    moreover have "[1..TotalPages p] = 1 # [2..TotalPages p]"
      using group(2) by (simp add: upto_rec1)
    ultimately have "mset (map fst (drop (length (calls s)) (calls s''))) = mset [1..TotalPages p]"
      by (simp add: f2)
    with j r f2 show ?thesis
      by auto
  qed
  from ex all show ?thesis by blast
qed

theorem later_page_failure_witness:
  "Client_Subscribers example_lib (example_client ''https://flaky'' ''k'' ''s'' 2) None [3, 3]
       example_sys =
     (None,
      \<lparr>world = 2, sent = [example_get ''https://flaky'' ''1'', example_get ''https://flaky'' ''3''],
       calls = [(1, Inr (example_page 1)), (3, Inl example_500)]\<rparr>) \<and>
   (3 :: int, Inl example_500) \<in> set (drop (length (calls example_sys))
       [(1, Inr (example_page 1)), (3, Inl example_500)]) \<and>
   Client_Subscribers example_lib (example_client ''https://flaky'' ''k'' ''s'' 2) None
       ([3, 3] @ [2, 2, 3, 3, 2, 2]) example_sys =
     (Some (Returns ([], Some example_500)),
      \<lparr>world = 3,
       sent = [example_get ''https://flaky'' ''1'', example_get ''https://flaky'' ''3'',
               example_get ''https://flaky'' ''2''],
       calls = [(1, Inr (example_page 1)), (3, Inl example_500), (2, Inr (example_page 2))]\<rparr>) \<and>
   (\<exists>j e'. (2 :: int) \<le> j \<and>
      (j, Inl e') \<in> set [(1, Inr (example_page 1)), (3, Inl example_500),
                          (2, Inr (example_page 2))] \<and>
      Some example_500 = Some e') \<and>
   mset (map fst [(1, Inr (example_page 1)), (3, Inl example_500), (2, Inr (example_page 2))]) =
     mset [1..TotalPages (example_page 1)]"
proof -
  define c where "c = example_client ''https://flaky'' ''k'' ''s'' 2"
  define sA :: "nat sys" where "sA =
      \<lparr>world = 2, sent = [example_get ''https://flaky'' ''1'', example_get ''https://flaky'' ''3''],
       calls = [(1, Inr (example_page 1)), (3, Inl example_500)]\<rparr>"
  define sB :: "nat sys" where "sB =
      \<lparr>world = 3,
       sent = [example_get ''https://flaky'' ''1'', example_get ''https://flaky'' ''3'',
               example_get ''https://flaky'' ''2''],
       calls = [(1, Inr (example_page 1)), (3, Inl example_500), (2, Inr (example_page 2))]\<rparr>"
  have h1: "Client_Subscribers example_lib c None [3, 3] example_sys = (None, sA)"
    unfolding c_def sA_def by code_simp
  have h2: "(3, Inl example_500) \<in> set (drop (length (calls example_sys)) (calls sA))"
    by (simp add: sA_def example_sys_def)
  have h3: "Client_Subscribers example_lib c None ([3, 3] @ [2, 2, 3, 3, 2, 2]) example_sys =
      (Some (Returns ([], Some example_500)), sB)"
    unfolding c_def sB_def by code_simp
  have "(2::int) \<le> 3" by simp
  from later_page_failure [OF h1 h2 this]
  have "\<forall>more r s''.
      Client_Subscribers example_lib c None ([3, 3] @ more) example_sys = (Some (Returns r), s'') \<longrightarrow>
      fst r = [] \<and>
      (\<exists>j e'. 2 \<le> j \<and> (j, Inl e') \<in> set (drop (length (calls example_sys)) (calls s'')) \<and>
              snd r = Some e') \<and>
      (\<exists>p. hd (drop (length (calls example_sys)) (calls s'')) = (1, Inr p) \<and>
           mset (map fst (drop (length (calls example_sys)) (calls s''))) = mset [1..TotalPages p])"
    by (rule conjunct2)
  from this [rule_format, OF h3] h1 h2 h3 show ?thesis
    unfolding c_def sA_def sB_def by (simp add: example_sys_def)
qed

end
